theory Spec2Isabelle
  imports Main "HOL-Library.Sublist" "HOL-Library.AList"
begin

section \<open>Strings and paths\<close>

text \<open>
  The notebook \<^verbatim>\<open>notebooks/01_getting_started.ipynb\<close> is glue code: it calls the
  Python standard library (\<^verbatim>\<open>pathlib\<close>, \<^verbatim>\<open>open\<close>, \<^verbatim>\<open>shutil\<close>), PySpark and Axolotl.
  The model below gives the standard-library calls their behaviour on a file system
  that is a list of entries keyed by lexical paths. Symbolic links, permissions,
  the resolution of \<^verbatim>\<open>..\<close> and of the working directory are outside the model:
  a path is the sequence of its components, as \<^verbatim>\<open>PurePosixPath.parts\<close> gives it.
\<close>

fun split_on :: "char \<Rightarrow> string \<Rightarrow> string list" where
  "split_on c [] = [[]]"
| "split_on c (x # xs) =
     (if x = c then [] # split_on c xs
      else (case split_on c xs of [] \<Rightarrow> [[x]] | w # ws \<Rightarrow> (x # w) # ws))"

fun join :: "string \<Rightarrow> string list \<Rightarrow> string" where
  "join sep [] = []"
| "join sep [x] = x"
| "join sep (x # y # ys) = x @ sep @ join sep (y # ys)"

type_synonym path = "string list"

definition is_root :: "string \<Rightarrow> bool" where
  "is_root c = (c = ''/'' \<or> c = ''//'')"

text \<open>
  \<^verbatim>\<open>Path(s)\<close>: the root is \<^verbatim>\<open>//\<close> for exactly two leading slashes and \<^verbatim>\<open>/\<close> for
  any other number; empty components and \<^verbatim>\<open>.\<close> are dropped, \<^verbatim>\<open>..\<close> is kept.
\<close>

definition parse_path :: "string \<Rightarrow> path" where
  "parse_path s =
     (let stripped = dropWhile (\<lambda>c. c = CHR ''/'') s;
          k = length s - length stripped;
          comps = filter (\<lambda>x. x \<noteq> [] \<and> x \<noteq> ''.'') (split_on (CHR ''/'') stripped)
      in if k = 0 then comps else if k = 2 then ''//'' # comps else ''/'' # comps)"

text \<open>\<^verbatim>\<open>str(path)\<close>\<close>

definition str_path :: "path \<Rightarrow> string" where
  "str_path p =
     (case p of
        [] \<Rightarrow> ''.''
      | c # cs \<Rightarrow> if is_root c then c @ join ''/'' cs else join ''/'' (c # cs))"

text \<open>\<^verbatim>\<open>path.parent\<close>: a bare root and the empty path are their own parents.\<close>

definition parent :: "path \<Rightarrow> path" where
  "parent p = (if length p = 1 \<and> is_root (hd p) then p else butlast p)"

definition is_abs :: "path \<Rightarrow> bool" where
  "is_abs p = (case p of [] \<Rightarrow> False | c # _ \<Rightarrow> is_root c)"

text \<open>\<open>beneath p q\<close>: \<open>q\<close> is \<open>p\<close> or lies in the tree below \<open>p\<close>.\<close>

definition beneath :: "path \<Rightarrow> path \<Rightarrow> bool" where
  "beneath p q = (prefix p q \<and> is_abs p = is_abs q)"

text \<open>A component as the file system can hold it, and a path made of such components.\<close>

definition comp_ok :: "string \<Rightarrow> bool" where
  "comp_ok c = (c \<noteq> [] \<and> c \<noteq> ''.'' \<and> CHR ''/'' \<notin> set c)"

definition normal_path :: "path \<Rightarrow> bool" where
  "normal_path p =
     (case p of [] \<Rightarrow> True | c # cs \<Rightarrow> (is_root c \<or> comp_ok c) \<and> list_all comp_ok cs)"

text \<open>The lines of a text: the runs ended by a newline, and an unterminated last run.\<close>

definition lines_of :: "string \<Rightarrow> string list" where
  "lines_of text =
     (let ps = split_on (CHR 0x0A) text in if last ps = [] then butlast ps else ps)"

text \<open>
  A string of the model is a list of bytes: a file name is the bytes the operating
  system holds, and a name that is not valid UTF-8 is the Python string with a lone
  surrogate for each byte that does not decode. Such a string cannot be encoded:
  \<open>utf8_valid\<close> is the test, after the table of well-formed byte sequences of the
  Unicode standard (no overlong form, no surrogate, nothing above U+10FFFF).
\<close>

definition byte_in :: "nat \<Rightarrow> nat \<Rightarrow> char \<Rightarrow> bool" where
  "byte_in lo hi c = (lo \<le> of_char c \<and> of_char c \<le> hi)"

fun utf8_valid :: "string \<Rightarrow> bool" where
  "utf8_valid [] = True"
| "utf8_valid (a # s) =
     (if byte_in 0x00 0x7F a then utf8_valid s
      else if byte_in 0xC2 0xDF a then
        (case s of b # s1 \<Rightarrow> byte_in 0x80 0xBF b \<and> utf8_valid s1 | _ \<Rightarrow> False)
      else if byte_in 0xE0 0xEF a then
        (case s of
           b # c # s2 \<Rightarrow>
             byte_in (if a = CHR 0xE0 then 0xA0 else 0x80) (if a = CHR 0xED then 0x9F else 0xBF) b
             \<and> byte_in 0x80 0xBF c \<and> utf8_valid s2
         | _ \<Rightarrow> False)
      else if byte_in 0xF0 0xF4 a then
        (case s of
           b # c # d # s3 \<Rightarrow>
             byte_in (if a = CHR 0xF0 then 0x90 else 0x80) (if a = CHR 0xF4 then 0x8F else 0xBF) b
             \<and> byte_in 0x80 0xBF c \<and> byte_in 0x80 0xBF d \<and> utf8_valid s3
         | _ \<Rightarrow> False)
      else False)"

section \<open>Errors and the file system\<close>

datatype error =
    NameError string
  | TypeError
  | ValueError
  | NotImplementedError
  | FileNotFoundError
  | FileExistsError
  | NotADirectoryError
  | IsADirectoryError
  | OSError
  | UnicodeEncodeError
  | NotFoundError
  | WriteError
  | ExternalCollaboratorError string

text \<open>
  A regular file holds text. A table artifact is a directory owned by the table
  writer: its partition count and its records.
\<close>

datatype 'r node = File string | Dir | Table nat "'r list"

type_synonym 'r fs = "(path \<times> 'r node) list"

definition path_exists :: "'r fs \<Rightarrow> path \<Rightarrow> bool" where
  "path_exists fs p = (map_of fs p \<noteq> None)"

definition path_is_dir :: "'r fs \<Rightarrow> path \<Rightarrow> bool" where
  "path_is_dir fs p =
     (case map_of fs p of None \<Rightarrow> False | Some (File _) \<Rightarrow> False | Some _ \<Rightarrow> True)"

text \<open>\<^verbatim>\<open>os.scandir(p)\<close>: the names of the entries directly in \<open>p\<close>, in the order the
  file system lists them.\<close>

definition scandir :: "'r fs \<Rightarrow> path \<Rightarrow> string list" where
  "scandir fs p = map last (filter (\<lambda>q. q \<noteq> p \<and> parent q = p) (map fst fs))"

text \<open>\<^verbatim>\<open>os.mkdir(p)\<close>\<close>

definition os_mkdir :: "'r fs \<Rightarrow> path \<Rightarrow> error + 'r fs" where
  "os_mkdir fs p =
     (if path_exists fs p then Inl FileExistsError
      else if \<not> path_exists fs (parent p) then Inl FileNotFoundError
      else if \<not> path_is_dir fs (parent p) then Inl NotADirectoryError
      else Inr (fs @ [(p, Dir)]))"

text \<open>
  \<^verbatim>\<open>Path.mkdir(mode, parents, exist_ok)\<close> of pathlib:
  \<^verbatim>\<open>
    try: os.mkdir(self, mode)
    except FileNotFoundError:
        if not parents or self.parent == self: raise
        self.parent.mkdir(parents=True, exist_ok=True)
        self.mkdir(mode, parents=False, exist_ok=exist_ok)
    except OSError:
        if not exist_ok or not self.is_dir(): raise
  \<close>
\<close>

function mkdir :: "'r fs \<Rightarrow> path \<Rightarrow> bool \<Rightarrow> bool \<Rightarrow> error + 'r fs" where
  "mkdir fs p parents exist_ok =
     (case os_mkdir fs p of
        Inr fs' \<Rightarrow> Inr fs'
      | Inl e \<Rightarrow>
          if e = FileNotFoundError then
            (if \<not> parents \<or> parent p = p then Inl e
             else (case mkdir fs (parent p) True True of
                     Inl e' \<Rightarrow> Inl e'
                   | Inr fs1 \<Rightarrow> mkdir fs1 p False exist_ok))
          else if \<not> exist_ok \<or> \<not> path_is_dir fs p then Inl e
          else Inr fs)"
  by pat_completeness auto
termination
proof (relation "measure (\<lambda>(fs, p, parents, exist_ok). 2 * length p + (if parents then 1 else 0))")
  show "wf (measure (\<lambda>(fs, p, parents, exist_ok). 2 * length p + (if parents then 1 else 0)))"
    by simp
next
  fix fs :: "'r fs" and p :: path and parents exist_ok :: bool and e :: error
  assume "\<not> (\<not> parents \<or> parent p = p)"
  then have ne: "parent p \<noteq> p" and par: "parents" by auto
  from ne have "p \<noteq> []" by (auto simp: parent_def)
  with ne have "length (parent p) < length p"
    by (auto simp: parent_def split: if_splits)
  with par show "((fs, parent p, True, True), fs, p, parents, exist_ok)
      \<in> measure (\<lambda>(fs, p, parents, exist_ok). 2 * length p + (if parents then 1 else 0))"
    by simp
next
  fix fs :: "'r fs" and p :: path and parents exist_ok :: bool and e :: error and fs1 :: "'r fs"
  assume "\<not> (\<not> parents \<or> parent p = p)"
  then show "((fs1, p, False, exist_ok), fs, p, parents, exist_ok)
      \<in> measure (\<lambda>(fs, p, parents, exist_ok). 2 * length p + (if parents then 1 else 0))"
    by simp
qed

declare mkdir.simps [simp del]

text \<open>\<^verbatim>\<open>open(p, 'w')\<close>: creates the file or truncates it.\<close>

definition open_w :: "'r fs \<Rightarrow> path \<Rightarrow> error + 'r fs" where
  "open_w fs p =
     (if path_is_dir fs p then Inl IsADirectoryError
      else if path_exists fs p then Inr (AList.update p (File []) fs)
      else if \<not> path_exists fs (parent p) then Inl FileNotFoundError
      else if \<not> path_is_dir fs (parent p) then Inl NotADirectoryError
      else Inr (AList.update p (File []) fs))"

text \<open>
  \<^verbatim>\<open>f.writelines(ls)\<close> on the text file opened at \<open>p\<close>, inside its \<^verbatim>\<open>with\<close> block:
  the strings are written one after the other, each encoded as it is written (the
  encoding of the file is UTF-8). A string that cannot be encoded raises
  \<^verbatim>\<open>UnicodeEncodeError\<close>; nothing of it is written, the strings after it are not
  reached, and the strings before it stay in the file, which the \<^verbatim>\<open>with\<close> block
  closes.
\<close>

definition writelines :: "'r fs \<Rightarrow> path \<Rightarrow> string list \<Rightarrow> (error + unit) \<times> 'r fs" where
  "writelines fs p ls =
     (let written = takeWhile utf8_valid ls
      in (if list_all utf8_valid ls then Inr () else Inl UnicodeEncodeError,
          case map_of fs p of
            Some (File old) \<Rightarrow> AList.update p (File (old @ concat written)) fs
          | _ \<Rightarrow> fs))"

text \<open>
  \<^verbatim>\<open>shutil.rmtree(p)\<close>: removes the directory and all below it. The working
  directory and a root lose their contents, then their own removal fails.
\<close>

definition rmtree :: "'r fs \<Rightarrow> path \<Rightarrow> (error + unit) \<times> 'r fs" where
  "rmtree fs p =
     (case map_of fs p of
        None \<Rightarrow> (Inl FileNotFoundError, fs)
      | Some (File _) \<Rightarrow> (Inl NotADirectoryError, fs)
      | Some _ \<Rightarrow>
          if parent p = p then (Inl OSError, filter (\<lambda>(q, n). q = p \<or> \<not> beneath p q) fs)
          else (Inr (), filter (\<lambda>(q, n). \<not> beneath p q) fs))"

section \<open>Globbing\<close>

text \<open>
  \<^verbatim>\<open>fnmatch\<close> on one path component, for patterns made of literal characters,
  \<^verbatim>\<open>*\<close> and \<^verbatim>\<open>?\<close> (the notebook's pattern has no bracket class and no \<^verbatim>\<open>**\<close>).
\<close>

fun fnmatch :: "string \<Rightarrow> string \<Rightarrow> bool" where
  "fnmatch [] [] = True"
| "fnmatch [] (c # cs) = False"
| "fnmatch (p # ps) [] = (p = CHR ''*'' \<and> fnmatch ps [])"
| "fnmatch (p # ps) (c # cs) =
     (if p = CHR ''*'' then fnmatch ps (c # cs) \<or> fnmatch (p # ps) cs
      else if p = CHR ''?'' then fnmatch ps cs
      else p = c \<and> fnmatch ps cs)"

definition is_wildcard_pattern :: "string \<Rightarrow> bool" where
  "is_wildcard_pattern pat =
     (CHR ''*'' \<in> set pat \<or> CHR ''?'' \<in> set pat \<or> CHR ''['' \<in> set pat)"

text \<open>
  The selectors of pathlib: a wildcard component scans the directory and keeps the
  matching names (directories only, unless it is the last component); a literal
  component is looked up; after the last component the path is yielded.
\<close>

fun select_from :: "'r fs \<Rightarrow> string list \<Rightarrow> path \<Rightarrow> path list" where
  "select_from fs [] p = [p]"
| "select_from fs (pat # pats) p =
     (if is_wildcard_pattern pat then
        concat (map (\<lambda>name. select_from fs pats (p @ [name]))
          (filter (\<lambda>name. (pats = [] \<or> path_is_dir fs (p @ [name])) \<and> fnmatch pat name)
             (scandir fs p)))
      else if (if pats = [] then path_exists fs (p @ [pat]) else path_is_dir fs (p @ [pat]))
        then select_from fs pats (p @ [pat])
      else [])"

text \<open>\<^verbatim>\<open>list(root.glob(pattern))\<close>\<close>

definition glob :: "'r fs \<Rightarrow> path \<Rightarrow> string \<Rightarrow> error + path list" where
  "glob fs root pattern =
     (if pattern = [] then Inl ValueError
      else if is_abs (parse_path pattern) then Inl NotImplementedError
      else if \<not> path_is_dir fs root then Inr []
      else Inr (select_from fs (parse_path pattern) root))"

section \<open>The table store\<close>

text \<open>
  Modelled from the spec: the Table Writer and the reading back of a table artifact
  (Axolotl's \<^verbatim>\<open>write\<close> and \<^verbatim>\<open>RawFeatDF.read\<close>) are not part of this repository, which
  only calls them. The contract of section 4.3: the records are persisted as a
  partitioned artifact at the destination; with overwrite, an artifact already there
  is removed in full before the new one is visible; the partition count does not
  affect the records; the write fails with \<^verbatim>\<open>WriteError\<close> if the destination is
  unwritable, or if overwrite is false and the destination already holds an artifact.
  What makes a destination unwritable is left open by the spec: it is the
  parameter \<open>writable\<close>.
\<close>

definition holds_artifact :: "'r fs \<Rightarrow> path \<Rightarrow> bool" where
  "holds_artifact fs p = (case map_of fs p of Some (Table _ _) \<Rightarrow> True | _ \<Rightarrow> False)"

definition table_write ::
  "('r fs \<Rightarrow> path \<Rightarrow> bool) \<Rightarrow> 'r fs \<Rightarrow> 'r list \<Rightarrow> string \<Rightarrow> bool \<Rightarrow> nat \<Rightarrow> error + 'r fs" where
  "table_write writable fs records dest overwrite num_partitions =
     (let p = parse_path dest in
      if \<not> writable fs p then Inl WriteError
      else if holds_artifact fs p \<and> \<not> overwrite then Inl WriteError
      else Inr (filter (\<lambda>(q, n). \<not> beneath p q) fs @ [(p, Table num_partitions records)]))"

definition table_read :: "'r fs \<Rightarrow> string \<Rightarrow> error + 'r list" where
  "table_read fs src =
     (case map_of fs (parse_path src) of
        None \<Rightarrow> Inl NotFoundError
      | Some (Table n records) \<Rightarrow> Inr records
      | Some _ \<Rightarrow> Inl (ExternalCollaboratorError ''not a table''))"

text \<open>The artifacts visible at a destination: the entries of that path that are tables.\<close>

definition artifacts_at :: "'r fs \<Rightarrow> path \<Rightarrow> 'r node list" where
  "artifacts_at fs p =
     map snd (filter (\<lambda>(q, n). q = p \<and> (case n of Table _ _ \<Rightarrow> True | _ \<Rightarrow> False)) fs)"

section \<open>The process: notebook globals, Spark, and the calls a run makes\<close>

datatype confval = CStr string | CBool bool | CInt int | CPath path

record spark_session =
  sid :: nat
  settings :: "(string \<times> confval) list"

record 'r world =
  files :: "'r fs"
  genbank_table :: "string option"
  bigslice_app_dir :: "string option"
  annotations_dir :: "string option"
  bigslice_db_path :: "path option"
  conda_prefix :: "string option"
  active_session :: "spark_session option"
  next_sid :: nat

datatype 'r event =
    EvGlob path string
  | EvGlobal string
  | EvMkdir path
  | EvOpenW path
  | EvWritelines path "string list"
  | EvGetenv string
  | EvPathNew
  | EvLoad string string nat bool
  | EvWrite "'r list" string bool nat
  | EvExists path
  | EvRmtree string
  | EvRead string
  | EvCreate string "'r list" string
  | EvCtxGetOrCreate
  | EvCtxStop nat
  | EvBuilderGetOrCreate "(string \<times> confval) list"

text \<open>
  A call made during a run: what was called, the file system before and after it,
  the session that was live when it began, and the error it raised, if any.
\<close>

record 'r call =
  ev :: "'r event"
  before :: "'r fs"
  after :: "'r fs"
  live :: "nat option"
  raised :: "error option"

type_synonym ('r, 'a) prog = "'r world \<Rightarrow> (error + 'a) \<times> 'r world \<times> 'r call list"

definition err_of :: "error + 'a \<Rightarrow> error option" where
  "err_of r = (case r of Inl e \<Rightarrow> Some e | Inr _ \<Rightarrow> None)"

definition ret :: "'a \<Rightarrow> ('r, 'a) prog" where
  "ret x w = (Inr x, w, [])"

text \<open>Sequencing, as Python does it: an exception ends the run where it is raised.\<close>

definition then_do :: "('r, 'a) prog \<Rightarrow> ('a \<Rightarrow> ('r, 'b) prog) \<Rightarrow> ('r, 'b) prog" where
  "then_do m f w =
     (case m w of
        (Inl e, w1, t1) \<Rightarrow> (Inl e, w1, t1)
      | (Inr x, w1, t1) \<Rightarrow> (case f x w1 of (r, w2, t2) \<Rightarrow> (r, w2, t1 @ t2)))"

definition step :: "'r event \<Rightarrow> ('r world \<Rightarrow> (error + 'a) \<times> 'r world) \<Rightarrow> ('r, 'a) prog" where
  "step e op w =
     (case op w of
        (r, w') \<Rightarrow>
          (r, w', [\<lparr>ev = e, before = files w, after = files w',
                    live = map_option sid (active_session w), raised = err_of r\<rparr>]))"

definition on_files :: "('r fs \<Rightarrow> (error + 'a) \<times> 'r fs) \<Rightarrow> 'r world \<Rightarrow> (error + 'a) \<times> 'r world" where
  "on_files op w = (case op (files w) of (r, f) \<Rightarrow> (r, w\<lparr>files := f\<rparr>))"

definition all_or_nothing :: "(error + 'r fs) \<Rightarrow> 'r fs \<Rightarrow> (error + unit) \<times> 'r fs" where
  "all_or_nothing res f = (case res of Inl e \<Rightarrow> (Inl e, f) | Inr f' \<Rightarrow> (Inr (), f'))"


subsection \<open>The standard-library calls as steps\<close>

definition Path_glob :: "path \<Rightarrow> string \<Rightarrow> ('r, path list) prog" where
  "Path_glob root pattern = step (EvGlob root pattern) (on_files (\<lambda>f. (glob f root pattern, f)))"

definition read_global :: "string \<Rightarrow> ('r world \<Rightarrow> 'a option) \<Rightarrow> ('r, 'a) prog" where
  "read_global name var =
     step (EvGlobal name)
       (\<lambda>w. (case var w of None \<Rightarrow> Inl (NameError name) | Some v \<Rightarrow> Inr v, w))"

definition Path_mkdir :: "path \<Rightarrow> bool \<Rightarrow> bool \<Rightarrow> ('r, unit) prog" where
  "Path_mkdir p parents exist_ok =
     step (EvMkdir p) (on_files (\<lambda>f. all_or_nothing (mkdir f p parents exist_ok) f))"

definition open_write :: "path \<Rightarrow> ('r, unit) prog" where
  "open_write p = step (EvOpenW p) (on_files (\<lambda>f. all_or_nothing (open_w f p) f))"

definition file_writelines :: "path \<Rightarrow> string list \<Rightarrow> ('r, unit) prog" where
  "file_writelines p ls = step (EvWritelines p ls) (on_files (\<lambda>f. writelines f p ls))"

definition Path_exists :: "path \<Rightarrow> ('r, bool) prog" where
  "Path_exists p = step (EvExists p) (on_files (\<lambda>f. (Inr (path_exists f p), f)))"

definition shutil_rmtree :: "string \<Rightarrow> ('r, unit) prog" where
  "shutil_rmtree s = step (EvRmtree s) (on_files (\<lambda>f. rmtree f (parse_path s)))"

definition os_getenv :: "string \<Rightarrow> ('r, string option) prog" where
  "os_getenv name =
     step (EvGetenv name)
       (\<lambda>w. (Inr (if name = ''CONDA_PREFIX'' then conda_prefix w else None), w))"

text \<open>\<^verbatim>\<open>Path(v)\<close> for a value that may be \<^verbatim>\<open>None\<close>: \<^verbatim>\<open>Path(None)\<close> raises \<^verbatim>\<open>TypeError\<close>.\<close>

definition Path_new :: "string option \<Rightarrow> ('r, path) prog" where
  "Path_new v =
     step EvPathNew (\<lambda>w. (case v of None \<Rightarrow> Inl TypeError | Some s \<Rightarrow> Inr (parse_path s), w))"

subsection \<open>The external collaborators\<close>

text \<open>
  The record loader, the application builder and the launching of Spark belong to
  Axolotl and PySpark. The notebook only calls them, so they are parameters of the
  model: the loader reads the file system and returns records or an error, the
  builder may change the file system, and \<open>spark_launch\<close> says whether Spark starts
  with the given settings.
\<close>

record 'r collab =
  loadSmallFiles2 :: "'r fs \<Rightarrow> string \<Rightarrow> string \<Rightarrow> nat \<Rightarrow> bool \<Rightarrow> error + 'r list"
  writable :: "'r fs \<Rightarrow> path \<Rightarrow> bool"
  BigsliceApp_create :: "'r fs \<Rightarrow> string \<Rightarrow> 'r list \<Rightarrow> string \<Rightarrow> (error + unit) \<times> 'r fs"
  spark_launch :: "(string \<times> confval) list \<Rightarrow> error option"

definition gbkIO_loadSmallFiles2 ::
  "'r collab \<Rightarrow> string \<Rightarrow> string \<Rightarrow> nat \<Rightarrow> bool \<Rightarrow> ('r, 'r list) prog" where
  "gbkIO_loadSmallFiles2 X file_pattern df_type minPartitions skip_malformed_record =
     step (EvLoad file_pattern df_type minPartitions skip_malformed_record)
       (on_files (\<lambda>f. (loadSmallFiles2 X f file_pattern df_type minPartitions
                          skip_malformed_record, f)))"

definition df_write :: "'r collab \<Rightarrow> 'r list \<Rightarrow> string \<Rightarrow> bool \<Rightarrow> nat \<Rightarrow> ('r, unit) prog" where
  "df_write X df dest overwrite num_partitions =
     step (EvWrite df dest overwrite num_partitions)
       (on_files (\<lambda>f. all_or_nothing
                         (table_write (writable X) f df dest overwrite num_partitions) f))"

definition RawFeatDF_read :: "string \<Rightarrow> ('r, 'r list) prog" where
  "RawFeatDF_read src = step (EvRead src) (on_files (\<lambda>f. (table_read f src, f)))"

definition App_create :: "'r collab \<Rightarrow> string \<Rightarrow> 'r list \<Rightarrow> string \<Rightarrow> ('r, unit) prog" where
  "App_create X dir df source_type =
     step (EvCreate dir df source_type)
       (on_files (\<lambda>f. BigsliceApp_create X f dir df source_type))"

text \<open>
  Spark keeps one shared session per process; the model does not tell the session from
  its context. \<^verbatim>\<open>SparkContext.getOrCreate()\<close> returns the live one or launches a default
  one; \<^verbatim>\<open>stop()\<close> ends the live one; \<^verbatim>\<open>SparkSession.builder...getOrCreate()\<close> returns
  the live session, with the options applied to it, or launches a new one with the
  options.
\<close>

definition SparkContext_getOrCreate :: "'r collab \<Rightarrow> ('r, spark_session) prog" where
  "SparkContext_getOrCreate X =
     step EvCtxGetOrCreate
       (\<lambda>w. case active_session w of
               Some s \<Rightarrow> (Inr s, w)
             | None \<Rightarrow>
                 (case spark_launch X [] of
                    Some e \<Rightarrow> (Inl e, w)
                  | None \<Rightarrow>
                      (Inr \<lparr>sid = next_sid w, settings = []\<rparr>,
                       w\<lparr>active_session := Some \<lparr>sid = next_sid w, settings = []\<rparr>,
                         next_sid := Suc (next_sid w)\<rparr>)))"

definition SparkContext_stop :: "spark_session \<Rightarrow> ('r, unit) prog" where
  "SparkContext_stop c =
     step (EvCtxStop (sid c))
       (\<lambda>w. (Inr (),
              if map_option sid (active_session w) = Some (sid c)
              then w\<lparr>active_session := None\<rparr> else w))"

definition apply_options ::
  "(string \<times> confval) list \<Rightarrow> (string \<times> confval) list \<Rightarrow> (string \<times> confval) list" where
  "apply_options old opts = foldl (\<lambda>a (k, v). AList.update k v a) old opts"

definition builder_getOrCreate ::
  "'r collab \<Rightarrow> (string \<times> confval) list \<Rightarrow> ('r, spark_session) prog" where
  "builder_getOrCreate X opts =
     step (EvBuilderGetOrCreate opts)
       (\<lambda>w. case active_session w of
               Some s \<Rightarrow>
                 (Inr (s\<lparr>settings := apply_options (settings s) opts\<rparr>),
                  w\<lparr>active_session := Some (s\<lparr>settings := apply_options (settings s) opts\<rparr>)\<rparr>)
             | None \<Rightarrow>
                 (case spark_launch X opts of
                    Some e \<Rightarrow> (Inl e, w)
                  | None \<Rightarrow>
                      (Inr \<lparr>sid = next_sid w, settings = opts\<rparr>,
                       w\<lparr>active_session := Some \<lparr>sid = next_sid w, settings = opts\<rparr>,
                         next_sid := Suc (next_sid w)\<rparr>)))"

section \<open>The notebook\<close>

fun str_nat :: "nat \<Rightarrow> string" where
  "str_nat n =
     (if n < 10 then [char_of (48 + n)] else str_nat (n div 10) @ [char_of (48 + n mod 10)])"

declare str_nat.simps [simp del]

definition str_int :: "int \<Rightarrow> string" where
  "str_int i = (if i < 0 then CHR ''-'' # str_nat (nat (- i)) else str_nat (nat i))"

text \<open>\<^verbatim>\<open>start_new_spark_session(master_ip, app_name, log_dir, cores, memory, partitions)\<close>\<close>

definition start_new_spark_session ::
  "'r collab \<Rightarrow> string \<Rightarrow> string \<Rightarrow> string \<Rightarrow> int \<Rightarrow> string \<Rightarrow> int
     \<Rightarrow> ('r, spark_session \<times> spark_session) prog" where
  "start_new_spark_session X master_ip app_name log_dir cores memory partitions =
     then_do (SparkContext_getOrCreate X) (\<lambda>c.
     then_do (SparkContext_stop c) (\<lambda>_.
     then_do (Path_mkdir (parse_path log_dir) True True) (\<lambda>_.
     then_do (builder_getOrCreate X
                [(''spark.app.name'', CStr app_name),
                 (''spark.master'', CStr master_ip),
                 (''spark.executor.cores'', CStr (str_int cores)),
                 (''spark.executor.memory'', CStr memory),
                 (''spark.shuffle.useOldFetchProtocol'', CBool True),
                 (''spark.sql.shuffle.partitions'', CInt partitions),
                 (''spark.sql.parquet.enableVectorizedReader'', CBool False),
                 (''spark.eventLog.enabled'', CBool True),
                 (''spark.eventLog.dir'', CPath (parse_path log_dir))]) (\<lambda>spark.
     ret (spark, spark)))))"

text \<open>\<^verbatim>\<open>gbk_to_bigslice_app(genbank_table_path, bigslice_app_dir_path, annotations_path)\<close>\<close>

definition gbk_to_bigslice_app :: "'r collab \<Rightarrow> string \<Rightarrow> string \<Rightarrow> string \<Rightarrow> ('r, unit) prog" where
  "gbk_to_bigslice_app X genbank_table_path bigslice_app_dir_path annotations_path =
     then_do (gbkIO_loadSmallFiles2 X genbank_table_path ''annotation'' 5 True) (\<lambda>df.
     then_do (df_write X df annotations_path True 5) (\<lambda>_.
     then_do (Path_exists (parse_path bigslice_app_dir_path)) (\<lambda>ex.
     then_do (if ex then shutil_rmtree (str_path (parse_path bigslice_app_dir_path))
              else ret ()) (\<lambda>_.
     then_do (RawFeatDF_read annotations_path) (\<lambda>features_df.
     App_create X (str_path (parse_path bigslice_app_dir_path)) features_df
       ''antismash'')))))"

text \<open>
  The cell \<^verbatim>\<open>fa8c0646\<close>: it lists the input files and writes the manifest.
  \<^verbatim>\<open>genbank_table\<close> is a global that a later cell assigns: reading it raises
  \<^verbatim>\<open>NameError\<close> while it is unset. The globals the cell itself assigns
  (\<^verbatim>\<open>dataset_path\<close>, \<^verbatim>\<open>datasets\<close>, \<^verbatim>\<open>outfile\<close>) are read nowhere else and are left out of
  the kernel state.
\<close>

definition dataset_path :: string where
  "dataset_path = ''/home/matinnu/datadrive/vol_atlas_server/datasets/''"

definition dataset_pattern :: string where
  "dataset_pattern = ''*/antismash/*region*.gbk''"

definition manifest_cell :: "('r, unit) prog" where
  "manifest_cell =
     then_do (Path_glob (parse_path dataset_path) dataset_pattern) (\<lambda>datasets.
     then_do (read_global ''genbank_table'' genbank_table) (\<lambda>gt.
     then_do (Path_mkdir (parent (parse_path gt)) True True) (\<lambda>_.
     then_do (open_write (parse_path gt)) (\<lambda>_.
     file_writelines (parse_path gt)
       (map (\<lambda>dataset. str_path dataset @ [CHR 0x0A]) datasets)))))"



section \<open>What the properties speak of\<close>

text \<open>
  An entry matches \<^verbatim>\<open>*/antismash/*region*.gbk\<close> below the root when it lies three
  levels down, in a directory named \<^verbatim>\<open>antismash\<close> of a directory of the root, and
  its name matches \<^verbatim>\<open>*region*.gbk\<close>.
\<close>

definition dataset_match :: "'r fs \<Rightarrow> path \<Rightarrow> path \<Rightarrow> bool" where
  "dataset_match fs root q =
     (length q = length root + 3 \<and> take (length root) q = root
      \<and> q ! (length root + 1) = ''antismash''
      \<and> fnmatch ''*region*.gbk'' (last q)
      \<and> path_is_dir fs (take (length root + 1) q)
      \<and> path_is_dir fs (take (length root + 2) q)
      \<and> path_exists fs q)"

text \<open>The text of a manifest for a list of paths.\<close>

definition manifest_text :: "path list \<Rightarrow> string" where
  "manifest_text datasets = concat (map (\<lambda>d. str_path d @ [CHR 0x0A]) datasets)"




text \<open>The calls that the configuration of a run fixes.\<close>

fun configured_call :: "string \<Rightarrow> string \<Rightarrow> string \<Rightarrow> 'r event \<Rightarrow> bool" where
  "configured_call g b a (EvLoad p ty n skip) = (p = g \<and> ty = ''annotation'' \<and> n = 5 \<and> skip)"
| "configured_call g b a (EvWrite df d overwrite n) = (d = a \<and> overwrite \<and> n = 5)"
| "configured_call g b a (EvExists p) = (p = parse_path b)"
| "configured_call g b a (EvRmtree s) = (s = str_path (parse_path b))"
| "configured_call g b a (EvRead s) = (s = a)"
| "configured_call g b a (EvCreate s df ty) = (s = str_path (parse_path b) \<and> ty = ''antismash'')"
| "configured_call g b a (EvGlob root pattern) =
     (root = parse_path dataset_path \<and> pattern = dataset_pattern)"
| "configured_call g b a (EvGlobal name) = (name = ''genbank_table'')"
| "configured_call g b a (EvMkdir p) = (p = parent (parse_path g))"
| "configured_call g b a (EvOpenW p) = (p = parse_path g)"
| "configured_call g b a (EvWritelines p ls) = (p = parse_path g)"
| "configured_call g b a _ = False"

text \<open>The settings that \<^verbatim>\<open>start_new_spark_session\<close> gives to the builder.\<close>

definition requested_settings ::
  "string \<Rightarrow> string \<Rightarrow> string \<Rightarrow> int \<Rightarrow> string \<Rightarrow> int \<Rightarrow> (string \<times> confval) list" where
  "requested_settings master_ip app_name log_dir cores memory partitions =
     [(''spark.app.name'', CStr app_name),
      (''spark.master'', CStr master_ip),
      (''spark.executor.cores'', CStr (str_int cores)),
      (''spark.executor.memory'', CStr memory),
      (''spark.shuffle.useOldFetchProtocol'', CBool True),
      (''spark.sql.shuffle.partitions'', CInt partitions),
      (''spark.sql.parquet.enableVectorizedReader'', CBool False),
      (''spark.eventLog.enabled'', CBool True),
      (''spark.eventLog.dir'', CPath (parse_path log_dir))]"

text \<open>
  The function or method that a call is a call of. The steps of the staging sequence
  are: discovery (\<open>CallGlob\<close>); writing the manifest (\<open>CallGlobal\<close>, \<open>CallMkdir\<close>,
  \<open>CallOpen\<close>, \<open>CallWritelines\<close>); loading (\<open>CallLoad\<close>); writing the table (\<open>CallWrite\<close>);
  removing the workspace (\<open>CallExists\<close>, \<open>CallRmtree\<close>); constructing the application
  (\<open>CallRead\<close>, \<open>CallCreate\<close>). Between the manifest and the loading the notebook
  builds a path from the environment (\<open>CallGetenv\<close>, \<open>CallPath\<close>).
\<close>

datatype callee =
    CallGlob | CallGlobal | CallMkdir | CallOpen | CallWritelines | CallGetenv | CallPath
  | CallLoad | CallWrite | CallExists | CallRmtree | CallRead | CallCreate | CallSpark

fun callee_of :: "'r event \<Rightarrow> callee" where
  "callee_of (EvGlob root pattern) = CallGlob"
| "callee_of (EvGlobal name) = CallGlobal"
| "callee_of (EvMkdir p) = CallMkdir"
| "callee_of (EvOpenW p) = CallOpen"
| "callee_of (EvWritelines p ls) = CallWritelines"
| "callee_of (EvGetenv name) = CallGetenv"
| "callee_of EvPathNew = CallPath"
| "callee_of (EvLoad p ty n skip) = CallLoad"
| "callee_of (EvWrite df d overwrite n) = CallWrite"
| "callee_of (EvExists p) = CallExists"
| "callee_of (EvRmtree s) = CallRmtree"
| "callee_of (EvRead s) = CallRead"
| "callee_of (EvCreate s df ty) = CallCreate"
| "callee_of EvCtxGetOrCreate = CallSpark"
| "callee_of (EvCtxStop k) = CallSpark"
| "callee_of (EvBuilderGetOrCreate opts) = CallSpark"



text \<open>
  The calls of a program follow one of the sequences in \<open>L\<close>: the callees of a run are
  the beginning of such a sequence, and the whole of it when the run returns.
\<close>

definition follows :: "callee list set \<Rightarrow> ('r, 'a) prog \<Rightarrow> bool" where
  "follows L m =
     (\<forall>w r w' t. m w = (r, w', t) \<longrightarrow>
        (\<exists>xs \<in> L. prefix (map (callee_of \<circ> ev) t) xs
           \<and> (\<not> isl r \<longrightarrow> map (callee_of \<circ> ev) t = xs)))"





text \<open>
  \<open>makeable fs p\<close>: a directory can be had at \<open>p\<close> by making directories only: \<open>p\<close> is a
  directory, or nothing is at \<open>p\<close> and its parent, another path, is makeable.
\<close>

function makeable :: "'r fs \<Rightarrow> path \<Rightarrow> bool" where
  "makeable fs p =
     (if path_exists fs p then path_is_dir fs p
      else if parent p = p then False
      else makeable fs (parent p))"
  by pat_completeness auto
termination
proof (relation "measure (\<lambda>(fs, p). length p)")
  show "wf (measure (\<lambda>(fs, p). length p))"
    by simp
next
  fix fs :: "'r fs" and p :: path
  assume "parent p \<noteq> p"
  then have "length (parent p) < length p"
    by (cases "p = []") (auto simp: parent_def split: if_splits)
  then show "((fs, parent p), fs, p) \<in> measure (\<lambda>(fs, p). length p)"
    by simp
qed

declare makeable.simps [simp del]

section \<open>Example states\<close>

text \<open>
  Small file systems, kernels and collaborators on which the notebook is run in the
  examples below. The records of the example loader are natural numbers.
\<close>

definition world_of :: "'r fs \<Rightarrow> string option \<Rightarrow> 'r world" where
  "world_of f gt =
     \<lparr>files = f, genbank_table = gt, bigslice_app_dir = None, annotations_dir = None,
      bigslice_db_path = None, conda_prefix = Some ''/opt/conda'',
      active_session = None, next_sid = 0\<rparr>"

definition datasets_dir :: path where
  "datasets_dir = [''/'', ''home'', ''matinnu'', ''datadrive'', ''vol_atlas_server'', ''datasets'']"

definition fs_one :: "nat fs" where
  "fs_one =
     [([], Dir), (datasets_dir, Dir), (datasets_dir @ [''g1''], Dir),
      (datasets_dir @ [''g1'', ''antismash''], Dir),
      (datasets_dir @ [''g1'', ''antismash'', ''c1.region001.gbk''], File ''LOCUS'')]"

definition fs_newline :: "nat fs" where
  "fs_newline =
     [([], Dir), (datasets_dir, Dir), (datasets_dir @ [''g1''], Dir),
      (datasets_dir @ [''g1'', ''antismash''], Dir),
      (datasets_dir @ [''g1'', ''antismash'', ''a'' @ [CHR 0x0A] @ ''region.gbk''], File ''LOCUS'')]"

definition fs_no_root :: "nat fs" where
  "fs_no_root = [([], Dir)]"

definition fs_no_match :: "nat fs" where
  "fs_no_match = [([], Dir), (datasets_dir, Dir), (datasets_dir @ [''g1''], Dir)]"




text \<open>
  An example of the collaborators: the records of a manifest are the lengths of its
  lines, a record is malformed when it is zero, the builder refuses a workspace that
  exists and makes the directory otherwise.
\<close>

definition example_collab :: "nat collab" where
  "example_collab =
     \<lparr>loadSmallFiles2 = (\<lambda>f p ty n skip.
        case map_of f (parse_path p) of
          Some (File text) \<Rightarrow>
            if skip then Inr (filter (\<lambda>r. 0 < r) (map length (lines_of text)))
            else if list_all (\<lambda>r. 0 < r) (map length (lines_of text))
              then Inr (map length (lines_of text))
            else Inl (ExternalCollaboratorError ''malformed record'')
        | _ \<Rightarrow> Inl NotFoundError),
      writable = (\<lambda>f p. True),
      BigsliceApp_create = (\<lambda>f d df ty.
        if path_exists f (parse_path d) then (Inl (ExternalCollaboratorError ''exists''), f)
        else (Inr (), f @ [(parse_path d, Dir)])),
      spark_launch = (\<lambda>c. None)\<rparr>"

definition fs_rerun :: "nat fs" where
  "fs_rerun =
     [([], Dir), ([''m.txt''], File (''abc'' @ [CHR 0x0A, CHR 0x0A] @ ''de'' @ [CHR 0x0A])),
      ([''ws''], Dir), ([''ws'', ''old.db''], File ''prior run'')]"

definition world_with_session :: "nat world" where
  "world_with_session =
     (world_of fs_rerun None)
       \<lparr>active_session := Some \<lparr>sid = 0, settings = [(''spark.master'', CStr ''yarn'')]\<rparr>,
        next_sid := 1\<rparr>"

text \<open>
  Three matching files in two directories, one file that does not match, and a
  manifest from an earlier run; and a directory with a file whose name is in Latin-1.
\<close>

definition fs_three :: "nat fs" where
  "fs_three =
     [([], Dir), (datasets_dir, Dir), (datasets_dir @ [''g1''], Dir),
      (datasets_dir @ [''g1'', ''antismash''], Dir),
      (datasets_dir @ [''g1'', ''antismash'', ''c1.region001.gbk''], File ''LOCUS c1''),
      (datasets_dir @ [''g1'', ''antismash'', ''c1.region002.gbk''], File ''LOCUS c1''),
      (datasets_dir @ [''g1'', ''antismash'', ''index.html''], File ''html''),
      (datasets_dir @ [''g2''], Dir),
      (datasets_dir @ [''g2'', ''antismash''], Dir),
      (datasets_dir @ [''g2'', ''antismash'', ''c7.region001.gbk''], File ''LOCUS c7''),
      ([''m.txt''], File (''stale line'' @ [CHR 0x0A] @ ''another stale line'' @ [CHR 0x0A]))]"

definition fs_latin1 :: "nat fs" where
  "fs_latin1 =
     [([], Dir), (datasets_dir, Dir), (datasets_dir @ [''g1''], Dir),
      (datasets_dir @ [''g1'', ''antismash''], Dir),
      (datasets_dir @ [''g1'', ''antismash'', ''c1.region001.gbk''], File ''LOCUS c1''),
      (datasets_dir @ [''g1'', ''antismash'', [CHR 0xE9] @ ''.region001.gbk''], File ''LOCUS'')]"

section \<open>Paths and their strings\<close>

lemma split_on_nonempty: "split_on c s \<noteq> []"
  by (induction s) (auto split: list.splits)

lemma split_on_absent: "c \<notin> set s \<Longrightarrow> split_on c s = [s]"
  by (induction s) auto

lemma split_on_append:
  "c \<notin> set x \<Longrightarrow> split_on c (x @ c # rest) = x # split_on c rest"
  by (induction x) auto

lemma split_on_join:
  "xs \<noteq> [] \<Longrightarrow> list_all (\<lambda>x. c \<notin> set x) xs \<Longrightarrow> split_on c (join [c] xs) = xs"
proof (induction "[c]" xs rule: join.induct)
  case (3 x y ys)
  then show ?case by (simp add: split_on_append)
qed (simp_all add: split_on_absent)

lemma split_on_pieces: "x \<in> set (split_on c s) \<Longrightarrow> c \<notin> set x"
proof (induction s arbitrary: x)
  case Nil
  then show ?case by simp
next
  case (Cons a s)
  then show ?case
    by (cases "split_on c s") (auto split: if_splits)
qed

lemma hd_join: "xs \<noteq> [] \<Longrightarrow> hd xs \<noteq> [] \<Longrightarrow> hd (join sep xs) = hd (hd xs)"
  by (induction sep xs rule: join.induct) auto

lemma join_nonempty: "xs \<noteq> [] \<Longrightarrow> hd xs \<noteq> [] \<Longrightarrow> join sep xs \<noteq> []"
  by (induction sep xs rule: join.induct) auto

lemma comp_ok_filter:
  "list_all comp_ok cs \<Longrightarrow> filter (\<lambda>x. x \<noteq> [] \<and> x \<noteq> ''.'') cs = cs"
  by (induction cs) (auto simp: comp_ok_def)

lemma comp_ok_slash: "list_all comp_ok cs \<Longrightarrow> list_all (\<lambda>x. CHR ''/'' \<notin> set x) cs"
  by (induction cs) (auto simp: comp_ok_def)

lemma parse_relative:
  assumes "cs \<noteq> []" "list_all comp_ok cs"
  shows "dropWhile (\<lambda>c. c = CHR ''/'') (join ''/'' cs) = join ''/'' cs"
    and "filter (\<lambda>x. x \<noteq> [] \<and> x \<noteq> ''.'') (split_on (CHR ''/'') (join ''/'' cs)) = cs"
proof -
  from assms have h: "hd cs \<noteq> []" "CHR ''/'' \<notin> set (hd cs)"
    by (cases cs; simp add: comp_ok_def)+
  then have "hd (hd cs) \<noteq> CHR ''/''"
    by (cases "hd cs") auto
  with assms h have "hd (join ''/'' cs) \<noteq> CHR ''/''" "join ''/'' cs \<noteq> []"
    by (simp_all add: hd_join join_nonempty)
  then show "dropWhile (\<lambda>c. c = CHR ''/'') (join ''/'' cs) = join ''/'' cs"
    by (cases "join ''/'' cs") auto
  show "filter (\<lambda>x. x \<noteq> [] \<and> x \<noteq> ''.'') (split_on (CHR ''/'') (join ''/'' cs)) = cs"
    using assms by (simp add: split_on_join comp_ok_slash comp_ok_filter)
qed

lemma parse_str_path:
  assumes "normal_path p"
  shows "parse_path (str_path p) = p"
proof (cases p)
  case Nil
  then show ?thesis by (simp add: parse_path_def str_path_def)
next
  case (Cons c cs)
  with assms have cs: "list_all comp_ok cs" and c: "is_root c \<or> comp_ok c"
    by (simp_all add: normal_path_def)
  show ?thesis
  proof (cases "is_root c")
    case True
    show ?thesis
    proof (cases "cs = []")
      case True
      with \<open>is_root c\<close> Cons show ?thesis
        by (auto simp: parse_path_def str_path_def is_root_def)
    next
      case False
      note r = parse_relative [OF False cs]
      from \<open>is_root c\<close> Cons r show ?thesis
        by (auto simp: parse_path_def str_path_def is_root_def Let_def)
    qed
  next
    case False
    with c have ok: "list_all comp_ok (c # cs)" using cs by simp
    have ne: "c # cs \<noteq> []" by simp
    note r = parse_relative [OF ne ok]
    from False Cons r show ?thesis
      by (simp add: parse_path_def str_path_def Let_def)
  qed
qed

lemma filter_comp_ok:
  "\<forall>x \<in> set xs. CHR ''/'' \<notin> set x \<Longrightarrow> list_all comp_ok (filter (\<lambda>x. x \<noteq> [] \<and> x \<noteq> ''.'') xs)"
  by (induction xs) (auto simp: comp_ok_def)

lemma normal_parse_path: "normal_path (parse_path s)"
proof -
  let ?cs = "filter (\<lambda>x. x \<noteq> [] \<and> x \<noteq> ''.'') (split_on (CHR ''/'') (dropWhile (\<lambda>c. c = CHR ''/'') s))"
  have ok: "list_all comp_ok ?cs"
    by (rule filter_comp_ok) (auto dest: split_on_pieces)
  then have "normal_path ?cs"
    by (cases ?cs) (simp_all add: normal_path_def)
  with ok show ?thesis
    by (simp add: parse_path_def Let_def normal_path_def is_root_def)
qed

lemma parse_str_parse: "parse_path (str_path (parse_path s)) = parse_path s"
  by (rule parse_str_path) (rule normal_parse_path)

section \<open>The table store replaces on overwrite\<close>

lemma beneath_refl: "beneath p p"
  by (simp add: beneath_def)

lemma map_of_not_beneath: "map_of (filter (\<lambda>(q, n). \<not> beneath p q) fs) p = None"
  by (induction fs) (auto simp: beneath_refl)

lemma table_write_result:
  assumes "table_write wr fs recs dest True n = Inr fs'"
  shows "fs' = filter (\<lambda>(q, n). \<not> beneath (parse_path dest) q) fs @ [(parse_path dest, Table n recs)]"
  using assms by (simp add: table_write_def Let_def split: if_splits)

lemma artifacts_at_fresh:
  "artifacts_at (filter (\<lambda>(q, n). \<not> beneath p q) fs @ [(p, Table k recs)]) p = [Table k recs]"
proof -
  have "filter (\<lambda>(q, n). q = p \<and> (case n of Table _ _ \<Rightarrow> True | _ \<Rightarrow> False))
          (filter (\<lambda>(q, n). \<not> beneath p q) fs) = []"
    by (induction fs) (auto simp: beneath_refl)
  then show ?thesis by (simp add: artifacts_at_def)
qed

lemma table_read_fresh:
  "table_read (filter (\<lambda>(q, n). \<not> beneath (parse_path dest) q) fs @ [(parse_path dest, Table k recs)]) dest = Inr recs"
  by (simp add: table_read_def map_of_not_beneath map_add_def)

lemma no_residue:
  assumes "(q, n) \<in> set (filter (\<lambda>(q, n). \<not> beneath p q) fs @ [(p, T)])" and "beneath p q"
  shows "q = p \<and> n = T"
  using assms by auto

text \<open>
  C1. Two writes of a table artifact to the same destination, both with overwrite,
  leave exactly one artifact visible there; reading it back gives the records of the
  second write, and no entry at or below the destination is left from before.
\<close>

theorem table_overwrite_replaces:
  assumes "table_write wr fs recs1 dest True n1 = Inr fs1"
      and "table_write wr fs1 recs2 dest True n2 = Inr fs2"
  shows "artifacts_at fs2 (parse_path dest) = [Table n2 recs2]
       \<and> table_read fs2 dest = Inr recs2
       \<and> (\<forall>q n. (q, n) \<in> set fs2 \<and> beneath (parse_path dest) q
             \<longrightarrow> q = parse_path dest \<and> n = Table n2 recs2)"
proof -
  have fs2: "fs2 = filter (\<lambda>(q, n). \<not> beneath (parse_path dest) q) fs1
                 @ [(parse_path dest, Table n2 recs2)]"
    using assms(2) by (rule table_write_result)
  have a: "artifacts_at fs2 (parse_path dest) = [Table n2 recs2]"
    unfolding fs2 by (rule artifacts_at_fresh)
  have b: "table_read fs2 dest = Inr recs2"
    unfolding fs2 by (rule table_read_fresh)
  have c: "\<forall>q n. (q, n) \<in> set fs2 \<and> beneath (parse_path dest) q
             \<longrightarrow> q = parse_path dest \<and> n = Table n2 recs2"
    unfolding fs2 using no_residue by fast
  show ?thesis by (intro conjI a b c)
qed

theorem table_overwrite_replaces_witness:
  "table_write (\<lambda>f p. True)
       [([''old''], File ''x''), ([''t''], Table 9 [0]), ([''t'', ''part-0''], File ''p'')]
       [1::nat, 2] ''t'' True 5 = Inr [([''old''], File ''x''), ([''t''], Table 5 [1, 2])]
   \<and> table_write (\<lambda>f p. True) [([''old''], File ''x''), ([''t''], Table 5 [1::nat, 2])]
       [7] ''t'' True 3 = Inr [([''old''], File ''x''), ([''t''], Table 3 [7])]
   \<and> artifacts_at [([''old''], File ''x''), ([''t''], Table 3 [7::nat])] (parse_path ''t'')
       = [Table 3 [7]]
   \<and> table_read [([''old''], File ''x''), ([''t''], Table 3 [7::nat])] ''t'' = Inr [7]"
proof -
  have p: "parse_path ''t'' = [''t'']"
    by (simp add: parse_path_def)
  have u: "\<not> beneath [''t''] [''old'']" "beneath [''t''] [''t'']" "beneath [''t''] [''t'', ''part-0'']"
    by (simp_all add: beneath_def is_abs_def is_root_def)
  have h1: "table_write (\<lambda>f p. True) [([''old''], File ''x''), ([''t''], Table 9 [0]), ([''t'', ''part-0''], File ''p'')]
              [1::nat, 2] ''t'' True 5 = Inr [([''old''], File ''x''), ([''t''], Table 5 [1, 2])]"
    by (simp add: table_write_def p u)
  have h2: "table_write (\<lambda>f p. True) [([''old''], File ''x''), ([''t''], Table 5 [1::nat, 2])]
              [7] ''t'' True 3 = Inr [([''old''], File ''x''), ([''t''], Table 3 [7])]"
    by (simp add: table_write_def p u)
  note r = table_overwrite_replaces [OF h1 h2]
  show ?thesis
    by (rule conjI [OF h1 conjI [OF h2 conjI [OF conjunct1 [OF r] conjunct1 [OF conjunct2 [OF r]]]]])
qed

section \<open>Programs, listing and files\<close>

subsection \<open>Running programs\<close>

lemma then_do_result:
  "then_do m f w = (r, w', t) \<longleftrightarrow>
     (\<exists>e. m w = (Inl e, w', t) \<and> r = Inl e) \<or>
     (\<exists>x w1 t1 t2. m w = (Inr x, w1, t1) \<and> f x w1 = (r, w', t2) \<and> t = t1 @ t2)"
  by (auto simp: then_do_def split: prod.splits sum.splits)


lemma step_result:
  "step e op w = (r, w', t) \<longleftrightarrow>
     op w = (r, w') \<and>
     t = [\<lparr>ev = e, before = files w, after = files w',
           live = map_option sid (active_session w), raised = err_of r\<rparr>]"
  by (auto simp: step_def split: prod.splits)

lemma on_files_result:
  "on_files op w = (r, w') \<longleftrightarrow> (\<exists>f. op (files w) = (r, f) \<and> w' = w\<lparr>files := f\<rparr>)"
  by (auto simp: on_files_def split: prod.splits)



subsection \<open>The manifest cell, when it succeeds\<close>



subsection \<open>Listing and globbing\<close>

lemma child_path: "q \<noteq> p \<Longrightarrow> parent q = p \<Longrightarrow> q = p @ [last q]"
  by (cases "q = []") (auto simp: parent_def split: if_splits)

lemma scandir_entry:
  assumes "name \<in> set (scandir fs p)"
  shows "p @ [name] \<in> fst ` set fs"
proof -
  from assms obtain q where q: "q \<in> fst ` set fs" "q \<noteq> p" "parent q = p" "name = last q"
    by (auto simp: scandir_def)
  with child_path [of q p] show ?thesis by simp
qed

lemma path_exists_iff: "path_exists fs p \<longleftrightarrow> p \<in> fst ` set fs"
  by (simp add: path_exists_def map_of_eq_None_iff)

lemma path_is_dir_exists: "path_is_dir fs p \<Longrightarrow> path_exists fs p"
  by (auto simp: path_is_dir_def path_exists_def split: option.splits)

lemma scandir_distinct:
  assumes "distinct (map fst fs)"
  shows "distinct (scandir fs p)"
proof -
  have "inj_on last {q. q \<noteq> p \<and> parent q = p}"
  proof (rule inj_onI)
    fix a b assume "a \<in> {q. q \<noteq> p \<and> parent q = p}" "b \<in> {q. q \<noteq> p \<and> parent q = p}" "last a = last b"
    then show "a = b" using child_path [of a p] child_path [of b p] by simp
  qed
  then have "inj_on last (set (filter (\<lambda>q. q \<noteq> p \<and> parent q = p) (map fst fs)))"
    by (rule inj_on_subset) auto
  with assms show ?thesis
    by (simp add: scandir_def distinct_map)
qed

lemma select_from_prefix:
  "q \<in> set (select_from fs pats p) \<Longrightarrow> prefix p q \<and> length q = length p + length pats"
proof (induction fs pats p arbitrary: q rule: select_from.induct)
  case (1 fs p)
  then show ?case by simp
next
  case (2 fs pat pats p)
  show ?case
  proof (cases "is_wildcard_pattern pat")
    case True
    with "2.prems" obtain name where
      n: "name \<in> set (scandir fs p)" "(pats = [] \<or> path_is_dir fs (p @ [name])) \<and> fnmatch pat name"
         "q \<in> set (select_from fs pats (p @ [name]))"
      by auto
    from "2.IH"(1) [OF True _ n(3)] n(1,2) have "prefix (p @ [name]) q \<and> length q = length (p @ [name]) + length pats"
      by simp
    then show ?thesis by (auto dest: append_prefixD)
  next
    case False
    with "2.prems" have
      c: "if pats = [] then path_exists fs (p @ [pat]) else path_is_dir fs (p @ [pat])"
      and q: "q \<in> set (select_from fs pats (p @ [pat]))"
      by (auto split: if_splits)
    from "2.IH"(2) [OF False c q] show ?thesis by (auto dest: append_prefixD)
  qed
qed

lemma select_from_exists:
  "q \<in> set (select_from fs pats p) \<Longrightarrow> pats \<noteq> [] \<Longrightarrow> path_exists fs q"
proof (induction fs pats p arbitrary: q rule: select_from.induct)
  case (1 fs p)
  then show ?case by simp
next
  case (2 fs pat pats p)
  show ?case
  proof (cases "is_wildcard_pattern pat")
    case True
    with "2.prems" obtain name where
      n: "name \<in> set (scandir fs p)" "(pats = [] \<or> path_is_dir fs (p @ [name])) \<and> fnmatch pat name"
         "q \<in> set (select_from fs pats (p @ [name]))"
      by auto
    show ?thesis
    proof (cases "pats = []")
      case True
      with n show ?thesis by (auto simp: path_exists_iff dest: scandir_entry)
    next
      case False
      from "2.IH"(1) [OF True _ n(3) False] n(1,2) show ?thesis by simp
    qed
  next
    case False
    with "2.prems" have
      c: "if pats = [] then path_exists fs (p @ [pat]) else path_is_dir fs (p @ [pat])"
      and q: "q \<in> set (select_from fs pats (p @ [pat]))"
      by (auto split: if_splits)
    show ?thesis
    proof (cases "pats = []")
      case True
      with c q show ?thesis by simp
    next
      case False
      from "2.IH"(2) [OF \<open>\<not> is_wildcard_pattern pat\<close> c q False] show ?thesis .
    qed
  qed
qed

lemma distinct_concat_map:
  assumes "distinct xs" "\<And>x. x \<in> set xs \<Longrightarrow> distinct (f x)"
    and "\<And>x y. x \<in> set xs \<Longrightarrow> y \<in> set xs \<Longrightarrow> x \<noteq> y \<Longrightarrow> set (f x) \<inter> set (f y) = {}"
  shows "distinct (concat (map f xs))"
  using assms
proof (induction xs)
  case Nil
  then show ?case by simp
next
  case (Cons a xs)
  have "distinct (concat (map f xs))"
    using Cons by simp
  moreover have "distinct (f a)" using Cons.prems(2) by simp
  moreover have "set (f a) \<inter> set (concat (map f xs)) = {}"
  proof -
    have "\<And>y. y \<in> set xs \<Longrightarrow> set (f a) \<inter> set (f y) = {}"
      using Cons.prems(1,3) by auto
    then show ?thesis by auto
  qed
  ultimately show ?case by simp
qed

lemma select_from_distinct:
  "distinct (map fst fs) \<Longrightarrow> distinct (select_from fs pats p)"
proof (induction fs pats p rule: select_from.induct)
  case (1 fs p)
  then show ?case by simp
next
  case (2 fs pat pats p)
  show ?case
  proof (cases "is_wildcard_pattern pat")
    case True
    let ?names = "filter (\<lambda>name. (pats = [] \<or> path_is_dir fs (p @ [name])) \<and> fnmatch pat name)
             (scandir fs p)"
    have d: "distinct ?names"
      using "2.prems" by (simp add: scandir_distinct)
    have each: "\<And>name. name \<in> set ?names \<Longrightarrow> distinct (select_from fs pats (p @ [name]))"
      using "2.IH"(1) [OF True] "2.prems" by simp
    have disj: "\<And>x y. x \<noteq> y \<Longrightarrow>
        set (select_from fs pats (p @ [x])) \<inter> set (select_from fs pats (p @ [y])) = {}"
    proof -
      fix x y :: string assume ne: "x \<noteq> y"
      { fix q assume "q \<in> set (select_from fs pats (p @ [x]))" "q \<in> set (select_from fs pats (p @ [y]))"
        then have "prefix (p @ [x]) q" "prefix (p @ [y]) q"
          by (auto dest: select_from_prefix)
        then have "take (Suc (length p)) q = p @ [x]" "take (Suc (length p)) q = p @ [y]"
          by (auto simp: prefix_def)
        with ne have False by simp }
      then show "set (select_from fs pats (p @ [x])) \<inter> set (select_from fs pats (p @ [y])) = {}"
        by auto
    qed
    have "distinct (concat (map (\<lambda>name. select_from fs pats (p @ [name])) ?names))"
      by (rule distinct_concat_map [OF d each disj])
    with True show ?thesis by simp
  next
    case False
    with "2.IH"(2) "2.prems" show ?thesis by simp
  qed
qed

lemma dataset_pattern_parts:
  "parse_path dataset_pattern = [''*'', ''antismash'', ''*region*.gbk'']"
  by (simp add: parse_path_def dataset_pattern_def)

lemma dataset_root_parts:
  "parse_path dataset_path
     = [''/'', ''home'', ''matinnu'', ''datadrive'', ''vol_atlas_server'', ''datasets'']"
  by (simp add: parse_path_def dataset_path_def)

lemma glob_dataset_never_fails:
  "glob fs root dataset_pattern =
     Inr (if path_is_dir fs root then select_from fs (parse_path dataset_pattern) root else [])"
  by (simp add: glob_def dataset_pattern_parts is_abs_def is_root_def)
     (simp add: dataset_pattern_def)

lemma glob_dataset_exists:
  assumes "glob fs root dataset_pattern = Inr ds" "q \<in> set ds"
  shows "path_exists fs q"
proof -
  from assms have "q \<in> set (select_from fs (parse_path dataset_pattern) root)"
    by (auto simp: glob_dataset_never_fails split: if_splits)
  then show ?thesis
    by (rule select_from_exists) (simp add: dataset_pattern_parts)
qed

lemma glob_dataset_distinct:
  assumes "glob fs root dataset_pattern = Inr ds" "distinct (map fst fs)"
  shows "distinct ds"
  using assms
  by (auto simp: glob_dataset_never_fails select_from_distinct split: if_splits)

subsection \<open>Creating directories and writing files\<close>

lemma os_mkdir_keeps:
  "os_mkdir fs p = Inr fs' \<Longrightarrow> map_of fs q = Some n \<Longrightarrow> map_of fs' q = Some n"
  by (auto simp: os_mkdir_def map_add_def split: if_splits)

lemma os_mkdir_is_dir: "os_mkdir fs p = Inr fs' \<Longrightarrow> path_is_dir fs' p"
  by (auto simp: os_mkdir_def path_is_dir_def path_exists_def map_add_def split: if_splits)

lemma mkdir_keeps:
  "mkdir fs p parents exist_ok = Inr fs' \<Longrightarrow> map_of fs q = Some n \<Longrightarrow> map_of fs' q = Some n"
proof (induction fs p parents exist_ok arbitrary: fs' rule: mkdir.induct)
  case (1 fs p parents exist_ok)
  show ?case
  proof (cases "os_mkdir fs p")
    case (Inr f)
    with "1.prems" show ?thesis
      by (auto simp: mkdir.simps [of fs p] dest: os_mkdir_keeps)
  next
    case (Inl e)
    show ?thesis
    proof (cases "e = FileNotFoundError")
      case True
      with Inl "1.prems"(1) have np: "\<not> (\<not> parents \<or> parent p = p)"
        by (auto simp: mkdir.simps [of fs p] split: if_splits)
      with Inl True "1.prems"(1) obtain fs1 where
        a: "mkdir fs (parent p) True True = Inr fs1" and b: "mkdir fs1 p False exist_ok = Inr fs'"
        by (auto simp: mkdir.simps [of fs p] split: if_splits sum.splits)
      from "1.IH"(1) [OF Inl True np a "1.prems"(2)] have "map_of fs1 q = Some n" .
      from "1.IH"(2) [OF Inl True np a b this] show ?thesis .
    next
      case False
      with Inl "1.prems" show ?thesis
        by (auto simp: mkdir.simps [of fs p] split: if_splits)
    qed
  qed
qed

lemma mkdir_is_dir:
  "mkdir fs p parents True = Inr fs' \<Longrightarrow> path_is_dir fs' p"
proof -
  have "mkdir fs p parents exist_ok = Inr fs' \<Longrightarrow> exist_ok \<Longrightarrow> path_is_dir fs' p"
    for exist_ok
  proof (induction fs p parents exist_ok arbitrary: fs' rule: mkdir.induct)
    case (1 fs p parents exist_ok)
    show ?case
    proof (cases "os_mkdir fs p")
      case (Inr f)
      with "1.prems" show ?thesis
        by (auto simp: mkdir.simps [of fs p] dest: os_mkdir_is_dir)
    next
      case (Inl e)
      show ?thesis
      proof (cases "e = FileNotFoundError")
        case True
        with Inl "1.prems"(1) have np: "\<not> (\<not> parents \<or> parent p = p)"
          by (auto simp: mkdir.simps [of fs p] split: if_splits)
        with Inl True "1.prems"(1) obtain fs1 where
          a: "mkdir fs (parent p) True True = Inr fs1" and b: "mkdir fs1 p False exist_ok = Inr fs'"
          by (auto simp: mkdir.simps [of fs p] split: if_splits sum.splits)
        from "1.IH"(2) [OF Inl True np a b "1.prems"(2)] show ?thesis .
      next
        case False
        with Inl "1.prems" show ?thesis
          by (auto simp: mkdir.simps [of fs p] split: if_splits)
      qed
    qed
  qed
  then show "mkdir fs p parents True = Inr fs' \<Longrightarrow> path_is_dir fs' p" by simp
qed

lemma map_of_update: "map_of (AList.update k v al) k' = (if k' = k then Some v else map_of al k')"
  by (simp add: update_conv')


lemma open_w_ok:
  "path_is_dir fs (parent p) \<Longrightarrow> \<not> path_is_dir fs p \<Longrightarrow> open_w fs p = Inr (AList.update p (File []) fs)"
  by (auto simp: open_w_def dest: path_is_dir_exists)

lemma writelines_opened:
  "writelines (AList.update p (File []) fs) p ls
     = (if list_all utf8_valid ls then Inr () else Inl UnicodeEncodeError,
        AList.update p (File (concat (takeWhile utf8_valid ls))) fs)"
  by (simp add: writelines_def map_of_update)



lemma takeWhile_all: "list_all P xs \<Longrightarrow> takeWhile P xs = xs"
  by (simp add: list_all_iff)

lemma path_exists_update: "path_exists fs q \<Longrightarrow> path_exists (AList.update p v fs) q"
  by (simp add: path_exists_def map_of_update)

lemma path_is_dir_update:
  "path_is_dir fs q \<Longrightarrow> q \<noteq> p \<Longrightarrow> path_is_dir (AList.update p v fs) q"
  by (simp add: path_is_dir_def map_of_update)

lemma mkdir_exists: 
  "mkdir fs p parents exist_ok = Inr fs' \<Longrightarrow> path_exists fs q \<Longrightarrow> path_exists fs' q"
  by (auto simp: path_exists_def dest: mkdir_keeps)

subsection \<open>Lines\<close>

lemma split_on_terminated:
  "\<forall>x \<in> set xs. c \<notin> set x \<Longrightarrow> split_on c (concat (map (\<lambda>x. x @ [c]) xs)) = xs @ [[]]"
  by (induction xs) (simp_all add: split_on_append)

lemma lines_of_terminated:
  assumes "\<forall>x \<in> set xs. CHR 0x0A \<notin> set x"
  shows "lines_of (concat (map (\<lambda>x. x @ [CHR 0x0A]) xs)) = xs"
  using split_on_terminated [OF assms] by (simp add: lines_of_def)

lemma fnmatch_star: "fnmatch ''*'' d"
  by (induction d) simp_all

lemma parent_snoc: "p \<noteq> [] \<Longrightarrow> parent (p @ [name]) = p"
  by (cases p) (simp_all add: parent_def)

lemma scandir_iff:
  "p \<noteq> [] \<Longrightarrow> name \<in> set (scandir fs p) \<longleftrightarrow> path_exists fs (p @ [name])"
proof
  assume "name \<in> set (scandir fs p)"
  then show "path_exists fs (p @ [name])"
    by (simp add: path_exists_iff scandir_entry)
next
  assume p: "p \<noteq> []" and "path_exists fs (p @ [name])"
  then have "p @ [name] \<in> set (filter (\<lambda>q. q \<noteq> p \<and> parent q = p) (map fst fs))"
    by (simp add: path_exists_iff parent_snoc)
  then have "last (p @ [name]) \<in> set (scandir fs p)"
    unfolding scandir_def by (simp only: set_map) (rule imageI)
  then show "name \<in> set (scandir fs p)" by simp
qed

lemma dataset_match_iff:
  "dataset_match fs root q \<longleftrightarrow>
     (\<exists>d f. q = root @ [d, ''antismash'', f] \<and> path_is_dir fs (root @ [d])
        \<and> path_is_dir fs (root @ [d, ''antismash'']) \<and> path_exists fs q
        \<and> fnmatch ''*region*.gbk'' f)"
proof
  assume m: "dataset_match fs root q"
  then have len: "length q = length root + 3" and tk: "take (length root) q = root"
    by (simp_all add: dataset_match_def)
  define r where "r = drop (length root) q"
  have q: "q = root @ r" using tk r_def by (metis append_take_drop_id)
  from len q have "length r = 3" by simp
  then obtain d a f where r: "r = [d, a, f]"
    by (cases r; cases "tl r"; cases "tl (tl r)"; cases "tl (tl (tl r))") auto
  from m q r show "\<exists>d f. q = root @ [d, ''antismash'', f] \<and> path_is_dir fs (root @ [d])
        \<and> path_is_dir fs (root @ [d, ''antismash'']) \<and> path_exists fs q
        \<and> fnmatch ''*region*.gbk'' f"
    by (auto simp: dataset_match_def nth_append)
next
  assume "\<exists>d f. q = root @ [d, ''antismash'', f] \<and> path_is_dir fs (root @ [d])
        \<and> path_is_dir fs (root @ [d, ''antismash'']) \<and> path_exists fs q
        \<and> fnmatch ''*region*.gbk'' f"
  then show "dataset_match fs root q"
    by (auto simp: dataset_match_def nth_append)
qed

lemma select_dataset_set:
  assumes "root \<noteq> []"
  shows "q \<in> set (select_from fs [''*'', ''antismash'', ''*region*.gbk''] root)
           \<longleftrightarrow> dataset_match fs root q"
proof -
  have w: "is_wildcard_pattern ''*''" "\<not> is_wildcard_pattern ''antismash''"
    "is_wildcard_pattern ''*region*.gbk''"
    by (simp_all add: is_wildcard_pattern_def)
  have s1: "\<And>d. d \<in> set (scandir fs root) \<longleftrightarrow> path_exists fs (root @ [d])"
    using assms by (simp add: scandir_iff)
  have s2: "\<And>d f. f \<in> set (scandir fs (root @ [d, ''antismash''])) \<longleftrightarrow>
                 path_exists fs (root @ [d, ''antismash'', f])"
    using scandir_iff [of "root @ [d, ''antismash'']" for d] by simp
  show ?thesis
    unfolding dataset_match_iff
    by (auto simp: w s1 s2 fnmatch_star dest: path_is_dir_exists)
qed

lemma glob_dataset_set:
  assumes "root \<noteq> []" "glob fs root dataset_pattern = Inr ds"
  shows "q \<in> set ds \<longleftrightarrow> path_is_dir fs root \<and> dataset_match fs root q"
  using assms select_dataset_set [of root q fs]
  by (auto simp: glob_dataset_never_fails dataset_pattern_parts split: if_splits)

section \<open>The manifest\<close>

lemma glob_dataset_empty:
  assumes "root \<noteq> []" "\<forall>q. \<not> dataset_match fs root q"
  shows "glob fs root dataset_pattern = Inr []"
proof -
  obtain ds where ds: "glob fs root dataset_pattern = Inr ds"
    by (simp add: glob_dataset_never_fails)
  have "\<And>q. q \<notin> set ds"
    using glob_dataset_set [OF assms(1) ds] assms(2) by simp
  then have "ds = []"
    by (cases ds) auto
  with ds show ?thesis by simp
qed


text \<open>The manifest cell succeeds when its steps do.\<close>

lemma manifest_cell_runs:
  assumes g: "glob (files w) (parse_path dataset_path) dataset_pattern = Inr datasets"
    and gt: "genbank_table w = Some gt"
    and mk: "mkdir (files w) (parent (parse_path gt)) True True = Inr f1"
    and nd: "\<not> path_is_dir f1 (parse_path gt)"
    and ok: "list_all utf8_valid (map (\<lambda>d. str_path d @ [CHR 0x0A]) datasets)"
  shows "fst (manifest_cell w) = Inr ()"
    and "files (fst (snd (manifest_cell w)))
           = AList.update (parse_path gt)
               (File (concat (map (\<lambda>d. str_path d @ [CHR 0x0A]) datasets))) f1"
proof -
  have "path_is_dir f1 (parent (parse_path gt))"
    using mk by (rule mkdir_is_dir)
  then have op: "open_w f1 (parse_path gt) = Inr (AList.update (parse_path gt) (File []) f1)"
    using nd by (rule open_w_ok)
  show "fst (manifest_cell w) = Inr ()"
    and "files (fst (snd (manifest_cell w)))
           = AList.update (parse_path gt)
               (File (concat (map (\<lambda>d. str_path d @ [CHR 0x0A]) datasets))) f1"
    unfolding manifest_cell_def Path_glob_def read_global_def Path_mkdir_def
      open_write_def file_writelines_def
    using ok
    by (simp_all add: then_do_def step_def on_files_def all_or_nothing_def g gt mk op
        writelines_opened takeWhile_all)
qed

lemma run_triple: "fst (m w) = r \<Longrightarrow> m w = (r, fst (snd (m w)), snd (snd (m w)))"
  by (auto simp: prod_eq_iff)

text \<open>
  C4. File discovery with the notebook's pattern raises nothing. Its result is the list
  of the entries that match below the root; it is empty when the root is no
  directory (absent included), and when the root is a directory and nothing matches.
\<close>

theorem discovery_never_fails:
  assumes "root \<noteq> []"
  shows "(\<exists>ds. glob fs root dataset_pattern = Inr ds
            \<and> (\<forall>q. q \<in> set ds \<longleftrightarrow> path_is_dir fs root \<and> dataset_match fs root q))
       \<and> (\<not> path_is_dir fs root \<longrightarrow> glob fs root dataset_pattern = Inr [])
       \<and> (path_is_dir fs root \<and> (\<forall>q. \<not> dataset_match fs root q)
            \<longrightarrow> glob fs root dataset_pattern = Inr [])"
proof -
  obtain ds where ds: "glob fs root dataset_pattern = Inr ds"
    by (simp add: glob_dataset_never_fails)
  have char: "\<forall>q. q \<in> set ds \<longleftrightarrow> path_is_dir fs root \<and> dataset_match fs root q"
    using glob_dataset_set [OF assms ds] by simp
  have a: "\<not> path_is_dir fs root \<longrightarrow> glob fs root dataset_pattern = Inr []"
    by (simp add: glob_dataset_never_fails)
  have b: "path_is_dir fs root \<and> (\<forall>q. \<not> dataset_match fs root q)
            \<longrightarrow> glob fs root dataset_pattern = Inr []"
    using glob_dataset_empty [OF assms] by blast
  from ds char a b show ?thesis by blast
qed

lemma fs_no_match_none: "\<not> dataset_match fs_no_match (parse_path dataset_path) q"
  by (auto simp: dataset_match_def path_exists_iff fs_no_match_def datasets_dir_def
      dataset_root_parts)

theorem discovery_never_fails_witness:
  "parse_path dataset_path \<noteq> []
   \<and> \<not> path_is_dir fs_no_root (parse_path dataset_path)
   \<and> glob fs_no_root (parse_path dataset_path) dataset_pattern = Inr []
   \<and> path_is_dir fs_no_match (parse_path dataset_path)
   \<and> glob fs_no_match (parse_path dataset_path) dataset_pattern = Inr []"
proof -
  have ne: "parse_path dataset_path \<noteq> []"
    by (simp add: dataset_root_parts)
  have nr: "\<not> path_is_dir fs_no_root (parse_path dataset_path)"
    by code_simp
  have d: "path_is_dir fs_no_match (parse_path dataset_path)"
    by code_simp
  from discovery_never_fails [OF ne, of fs_no_root] nr
  have g1: "glob fs_no_root (parse_path dataset_path) dataset_pattern = Inr []"
    by blast
  from discovery_never_fails [OF ne, of fs_no_match] d fs_no_match_none
  have g2: "glob fs_no_match (parse_path dataset_path) dataset_pattern = Inr []"
    by blast
  from ne nr g1 d g2 show ?thesis by simp
qed

theorem discovery_missing_root_counterexample:
  "\<not> path_exists fs_no_root (parse_path dataset_path)
   \<and> glob fs_no_root (parse_path dataset_path) dataset_pattern = Inr []
   \<and> fst (manifest_cell (world_of fs_no_root (Some ''m.txt''))) = Inr ()
   \<and> map_of (files (fst (snd (manifest_cell (world_of fs_no_root (Some ''m.txt''))))))
        (parse_path ''m.txt'') = Some (File [])"
  by code_simp

text \<open>
  C8. When the root is a directory and nothing matches, and the destination can be
  written (its parent can be made, and it is no directory itself), the manifest cell
  succeeds and leaves an empty file at the destination: zero lines.
\<close>

theorem empty_match_set_writes_empty_manifest:
  assumes gt: "genbank_table w = Some gt"
    and root: "path_is_dir (files w) (parse_path dataset_path)"
    and none: "\<forall>q. \<not> dataset_match (files w) (parse_path dataset_path) q"
    and mk: "mkdir (files w) (parent (parse_path gt)) True True = Inr f1"
    and nd: "\<not> path_is_dir f1 (parse_path gt)"
  shows "\<exists>w' t. manifest_cell w = (Inr (), w', t)
           \<and> map_of (files w') (parse_path gt) = Some (File [])
           \<and> lines_of [] = ([] :: string list)"
proof -
  have ne: "parse_path dataset_path \<noteq> []"
    by (simp add: dataset_root_parts)
  from ne none have g: "glob (files w) (parse_path dataset_path) dataset_pattern = Inr []"
    by (rule glob_dataset_empty)
  have r: "fst (manifest_cell w) = Inr ()"
    and f: "files (fst (snd (manifest_cell w))) = AList.update (parse_path gt) (File []) f1"
    using manifest_cell_runs [OF g gt mk nd] by simp_all
  have "manifest_cell w = (Inr (), fst (snd (manifest_cell w)), snd (snd (manifest_cell w)))"
    using r by (rule run_triple)
  moreover have "map_of (files (fst (snd (manifest_cell w)))) (parse_path gt) = Some (File [])"
    by (simp add: f map_of_update)
  moreover have "lines_of [] = ([] :: string list)"
    by (simp add: lines_of_def)
  ultimately show ?thesis by blast
qed

theorem empty_match_set_writes_empty_manifest_witness:
  "\<exists>w' t. manifest_cell (world_of fs_no_match (Some ''m.txt'')) = (Inr (), w', t)
           \<and> map_of (files w') (parse_path ''m.txt'') = Some (File [])
           \<and> lines_of [] = ([] :: string list)"
proof -
  have gt: "genbank_table (world_of fs_no_match (Some ''m.txt'')) = Some ''m.txt''"
    by code_simp
  have root: "path_is_dir (files (world_of fs_no_match (Some ''m.txt''))) (parse_path dataset_path)"
    by code_simp
  have f: "files (world_of fs_no_match (Some ''m.txt'')) = fs_no_match"
    by (simp add: world_of_def)
  have none: "\<forall>q. \<not> dataset_match (files (world_of fs_no_match (Some ''m.txt'')))
                     (parse_path dataset_path) q"
    by (simp add: f fs_no_match_none)
  have mk: "mkdir (files (world_of fs_no_match (Some ''m.txt''))) (parent (parse_path ''m.txt''))
              True True = Inr fs_no_match"
    by code_simp
  have nd: "\<not> path_is_dir fs_no_match (parse_path ''m.txt'')"
    by code_simp
  show ?thesis
    by (rule empty_match_set_writes_empty_manifest [OF gt root none mk nd])
qed

section \<open>The calls of a run\<close>

lemmas prim_defs = gbkIO_loadSmallFiles2_def df_write_def Path_exists_def shutil_rmtree_def
  RawFeatDF_read_def App_create_def Path_glob_def read_global_def Path_mkdir_def
  open_write_def file_writelines_def os_getenv_def Path_new_def

lemma ret_result: "ret x w = (r, w', t) \<longleftrightarrow> r = Inr x \<and> w' = w \<and> t = []"
  by (auto simp: ret_def)


lemma rmtree_success:
  "rmtree fs p = (Inr (), fs') \<longleftrightarrow>
     path_is_dir fs p \<and> parent p \<noteq> p \<and> fs' = filter (\<lambda>(q, n). \<not> beneath p q) fs"
  by (auto simp: rmtree_def path_is_dir_def split: option.splits node.splits)

lemma not_exists_removed: "path_exists (filter (\<lambda>(q, n). \<not> beneath p q) fs) p = False"
  by (simp add: path_exists_def map_of_not_beneath)

lemma gbk_calls_configured:
  assumes "gbk_to_bigslice_app X g b a w = (r, w', t)" "c \<in> set t"
  shows "configured_call g b a (ev c)"
  using assms unfolding gbk_to_bigslice_app_def prim_defs
  by (auto simp: then_do_result step_result on_files_result ret_result split: if_splits)

lemma manifest_calls_configured:
  assumes "manifest_cell w = (r, w', t)" "c \<in> set t" "genbank_table w = None \<or> genbank_table w = Some g"
  shows "configured_call g b a (ev c)"
  using assms unfolding manifest_cell_def prim_defs
  by (auto simp: then_do_result step_result on_files_result ret_result
      split: if_splits option.splits)

text \<open>
  C7. In every run of \<^verbatim>\<open>gbk_to_bigslice_app\<close>, a call of the application builder is
  for the workspace path, and when the call begins nothing exists at that path.
\<close>

theorem workspace_absent_at_create:
  assumes "gbk_to_bigslice_app X g b a w = (r, w', t)"
  shows "\<forall>c \<in> set t. \<forall>s df ty. ev c = EvCreate s df ty \<longrightarrow>
           parse_path s = parse_path b \<and> \<not> path_exists (before c) (parse_path s)"
  using assms unfolding gbk_to_bigslice_app_def prim_defs
  by (auto simp: then_do_result step_result on_files_result ret_result parse_str_parse
      rmtree_success not_exists_removed split: if_splits)

theorem workspace_absent_at_create_witness:
  "path_exists (files (world_of fs_rerun None)) (parse_path ''ws'')
   \<and> fst (gbk_to_bigslice_app example_collab ''m.txt'' ''ws'' ''tab'' (world_of fs_rerun None))
       = Inr ()
   \<and> ev (last (snd (snd (gbk_to_bigslice_app example_collab ''m.txt'' ''ws'' ''tab''
                            (world_of fs_rerun None)))))
       = EvCreate ''ws'' [3, 2] ''antismash''
   \<and> parse_path ''ws'' = parse_path ''ws''
   \<and> \<not> path_exists (before (last (snd (snd (gbk_to_bigslice_app example_collab ''m.txt'' ''ws''
                                             ''tab'' (world_of fs_rerun None))))))
          (parse_path ''ws'')"
proof -
  let ?run = "gbk_to_bigslice_app example_collab ''m.txt'' ''ws'' ''tab'' (world_of fs_rerun None)"
  have ex: "path_exists (files (world_of fs_rerun None)) (parse_path ''ws'')"
    by code_simp
  have ok: "fst ?run = Inr ()"
    by code_simp
  have run: "?run = (Inr (), fst (snd ?run), snd (snd ?run))"
    using ok by (rule run_triple)
  have ne: "snd (snd ?run) \<noteq> []"
    by code_simp
  have c: "ev (last (snd (snd ?run))) = EvCreate ''ws'' [3, 2] ''antismash''"
    by code_simp
  from ne have "last (snd (snd ?run)) \<in> set (snd (snd ?run))"
    by simp
  with workspace_absent_at_create [OF run] c
  have "parse_path ''ws'' = parse_path ''ws''
      \<and> \<not> path_exists (before (last (snd (snd ?run)))) (parse_path ''ws'')"
    by blast
  with ex ok c show ?thesis by blast
qed

text \<open>
  C6. A run takes three values from its caller: the manifest path (the global
  \<^verbatim>\<open>genbank_table\<close> for the manifest cell, the first argument for
  \<^verbatim>\<open>gbk_to_bigslice_app\<close>), the workspace path and the table path. Every call a run
  makes carries these, and otherwise the constants of the notebook: the root
  directory, the pattern, overwrite on, five partitions, the source type
  \<^verbatim>\<open>antismash\<close>.
\<close>

theorem configuration_surface:
  "(gbk_to_bigslice_app X g b a w = (r, w', t) \<longrightarrow> (\<forall>c \<in> set t. configured_call g b a (ev c)))
   \<and> (manifest_cell wm = (r', w'', t') \<and> (genbank_table wm = None \<or> genbank_table wm = Some g)
        \<longrightarrow> (\<forall>c \<in> set t'. configured_call g b a (ev c)))"
  using gbk_calls_configured manifest_calls_configured by blast

theorem configuration_surface_witness:
  "map ev (snd (snd (gbk_to_bigslice_app example_collab ''m.txt'' ''ws'' ''tab''
                       (world_of fs_rerun None))))
     = [EvLoad ''m.txt'' ''annotation'' 5 True, EvWrite [3, 2] ''tab'' True 5,
        EvExists [''ws''], EvRmtree ''ws'', EvRead ''tab'', EvCreate ''ws'' [3, 2] ''antismash'']
   \<and> list_all (configured_call ''m.txt'' ''ws'' ''tab'')
        (map ev (snd (snd (gbk_to_bigslice_app example_collab ''m.txt'' ''ws'' ''tab''
                             (world_of fs_rerun None)))))
   \<and> list_all (configured_call ''out/m.txt'' ''ws'' ''tab'')
        (map ev (snd (snd (manifest_cell (world_of fs_rerun (Some ''out/m.txt''))))))"
proof -
  let ?run = "gbk_to_bigslice_app example_collab ''m.txt'' ''ws'' ''tab'' (world_of fs_rerun None)"
  let ?cell = "manifest_cell (world_of fs_rerun (Some ''out/m.txt''))"
  have run: "?run = (fst ?run, fst (snd ?run), snd (snd ?run))"
    by simp
  have cell: "?cell = (fst ?cell, fst (snd ?cell), snd (snd ?cell))"
    by simp
  have gt: "genbank_table (world_of fs_rerun (Some ''out/m.txt'')) = None
      \<or> genbank_table (world_of fs_rerun (Some ''out/m.txt'')) = Some ''out/m.txt''"
    by code_simp
  from configuration_surface [where X = example_collab and g = "''m.txt''" and b = "''ws''"
      and a = "''tab''" and w = "world_of fs_rerun None" and r = "fst ?run"
      and w' = "fst (snd ?run)" and t = "snd (snd ?run)"] run
  have c1: "\<forall>c \<in> set (snd (snd ?run)). configured_call ''m.txt'' ''ws'' ''tab'' (ev c)"
    by blast
  from configuration_surface [where g = "''out/m.txt''" and b = "''ws''"
      and a = "''tab''" and wm = "world_of fs_rerun (Some ''out/m.txt'')" and r' = "fst ?cell"
      and w'' = "fst (snd ?cell)" and t' = "snd (snd ?cell)"] cell gt
  have c2: "\<forall>c \<in> set (snd (snd ?cell)). configured_call ''out/m.txt'' ''ws'' ''tab'' (ev c)"
    by blast
  from c1 c2 have "(\<forall>c \<in> set (snd (snd ?run)). configured_call ''m.txt'' ''ws'' ''tab'' (ev c))
      \<and> (\<forall>c \<in> set (snd (snd ?cell)). configured_call ''out/m.txt'' ''ws'' ''tab'' (ev c))"
    by blast
  then have "list_all (configured_call ''m.txt'' ''ws'' ''tab'') (map ev (snd (snd ?run)))
      \<and> list_all (configured_call ''out/m.txt'' ''ws'' ''tab'') (map ev (snd (snd ?cell)))"
    by (simp add: list_all_iff)
  moreover have "map ev (snd (snd ?run))
     = [EvLoad ''m.txt'' ''annotation'' 5 True, EvWrite [3, 2] ''tab'' True 5,
        EvExists [''ws''], EvRmtree ''ws'', EvRead ''tab'', EvCreate ''ws'' [3, 2] ''antismash'']"
    by code_simp
  ultimately show ?thesis by blast
qed

theorem configuration_fixed_counterexample:
  "\<not> (\<exists>X g b a (w :: nat world) c df d n.
         c \<in> set (snd (snd (gbk_to_bigslice_app X g b a w))) \<and> ev c = EvWrite df d False n)
   \<and> \<not> (\<exists>X g b a (w :: nat world) c df d ov n.
         c \<in> set (snd (snd (gbk_to_bigslice_app X g b a w))) \<and> ev c = EvWrite df d ov n \<and> n \<noteq> 5)
   \<and> \<not> (\<exists>X g b a (w :: nat world) c s df ty.
         c \<in> set (snd (snd (gbk_to_bigslice_app X g b a w))) \<and> ev c = EvCreate s df ty
         \<and> ty \<noteq> ''antismash'')
   \<and> \<not> (\<exists>(w :: nat world) c root pattern.
         c \<in> set (snd (snd (manifest_cell w))) \<and> ev c = EvGlob root pattern
         \<and> (root \<noteq> parse_path dataset_path \<or> pattern \<noteq> dataset_pattern))"
proof -
  have g: "configured_call g b a (ev c)"
    if "c \<in> set (snd (snd (gbk_to_bigslice_app X g b a w)))"
    for X g b a and w :: "nat world" and c
    using that gbk_calls_configured [of X g b a w "fst (gbk_to_bigslice_app X g b a w)"
        "fst (snd (gbk_to_bigslice_app X g b a w))" "snd (snd (gbk_to_bigslice_app X g b a w))" c]
    by simp
  have m: "ev c = EvGlob root pattern \<Longrightarrow> root = parse_path dataset_path \<and> pattern = dataset_pattern"
    if "c \<in> set (snd (snd (manifest_cell w)))"
    for w :: "nat world" and c root pattern
    using that unfolding manifest_cell_def prim_defs
    by (auto simp: then_do_def step_def on_files_def split: prod.splits sum.splits option.splits)
  have 1: "\<not> (\<exists>X g b a (w :: nat world) c df d n.
         c \<in> set (snd (snd (gbk_to_bigslice_app X g b a w))) \<and> ev c = EvWrite df d False n)"
    using g by fastforce
  have 2: "\<not> (\<exists>X g b a (w :: nat world) c df d ov n.
         c \<in> set (snd (snd (gbk_to_bigslice_app X g b a w))) \<and> ev c = EvWrite df d ov n \<and> n \<noteq> 5)"
    using g by fastforce
  have 3: "\<not> (\<exists>X g b a (w :: nat world) c s df ty.
         c \<in> set (snd (snd (gbk_to_bigslice_app X g b a w))) \<and> ev c = EvCreate s df ty
         \<and> ty \<noteq> ''antismash'')"
    using g by fastforce
  have 4: "\<not> (\<exists>(w :: nat world) c root pattern.
         c \<in> set (snd (snd (manifest_cell w))) \<and> ev c = EvGlob root pattern
         \<and> (root \<noteq> parse_path dataset_path \<or> pattern \<noteq> dataset_pattern))"
    using m by blast
  from 1 2 3 4 show ?thesis by (intro conjI)
qed

section \<open>The Spark session\<close>

lemmas spark_defs = SparkContext_getOrCreate_def SparkContext_stop_def builder_getOrCreate_def

lemma getOrCreate_result:
  assumes "SparkContext_getOrCreate X w = (r, w1, t1)"
  shows "map ev t1 = [EvCtxGetOrCreate]
       \<and> (case r of
             Inl e \<Rightarrow> active_session w = None \<and> active_session w1 = None
           | Inr c \<Rightarrow> active_session w1 = Some c \<and> files w1 = files w
               \<and> (active_session w = Some c \<and> next_sid w1 = next_sid w
                  \<or> active_session w = None \<and> next_sid w1 = Suc (next_sid w)))"
  using assms unfolding SparkContext_getOrCreate_def
  by (auto simp: step_result split: option.splits)

lemma stop_result:
  assumes "SparkContext_stop c w1 = (r, w2, t2)" "active_session w1 = Some c"
  shows "r = Inr () \<and> map ev t2 = [EvCtxStop (sid c)] \<and> active_session w2 = None
       \<and> next_sid w2 = next_sid w1 \<and> files w2 = files w1"
  using assms unfolding SparkContext_stop_def
  by (auto simp: step_result)

lemma Path_mkdir_result:
  assumes "Path_mkdir p parents exist_ok w2 = (r, w3, t3)"
  shows "map ev t3 = [EvMkdir p] \<and> map live t3 = [map_option sid (active_session w2)]
       \<and> active_session w3 = active_session w2 \<and> next_sid w3 = next_sid w2"
  using assms unfolding Path_mkdir_def
  by (auto simp: step_result on_files_result)

lemma builder_result:
  assumes "builder_getOrCreate X opts w3 = (r, w4, t4)" "active_session w3 = None"
  shows "map ev t4 = [EvBuilderGetOrCreate opts] \<and> map live t4 = [None]
       \<and> (case r of
             Inl e \<Rightarrow> active_session w4 = None
           | Inr s \<Rightarrow> active_session w4 = Some s \<and> settings s = opts \<and> sid s = next_sid w3)"
  using assms unfolding builder_getOrCreate_def
  by (auto simp: step_result split: option.splits)

text \<open>The four ways a call of \<^verbatim>\<open>start_new_spark_session\<close> can go.\<close>

lemma start_new_spark_session_cases:
  assumes run: "start_new_spark_session X master_ip app_name log_dir cores memory partitions w
                  = (r, w', t)"
  obtains
    (launch_failed) e where "r = Inl e" "active_session w = None" "active_session w' = None"
      "map ev t = [EvCtxGetOrCreate]"
  | (mkdir_failed) e k where "r = Inl e" "active_session w' = None"
      "\<forall>s. active_session w = Some s \<longrightarrow> k = sid s"
      "map ev t = [EvCtxGetOrCreate, EvCtxStop k, EvMkdir (parse_path log_dir)]"
  | (builder_called) k where
      "active_session w' = (case r of Inl e \<Rightarrow> None | Inr (spark, sc) \<Rightarrow> Some spark)"
      "case r of Inl e \<Rightarrow> True
        | Inr (spark, sc) \<Rightarrow> sc = spark \<and> next_sid w \<le> sid spark
            \<and> settings spark
                = requested_settings master_ip app_name log_dir cores memory partitions"
      "\<forall>s. active_session w = Some s \<longrightarrow> k = sid s"
      "map ev t = [EvCtxGetOrCreate, EvCtxStop k, EvMkdir (parse_path log_dir),
                    EvBuilderGetOrCreate
                      (requested_settings master_ip app_name log_dir cores memory partitions)]"
      "live (last t) = None"
proof -
  let ?opts = "requested_settings master_ip app_name log_dir cores memory partitions"
  let ?rest1 = "\<lambda>c. then_do (SparkContext_stop c) (\<lambda>_.
     then_do (Path_mkdir (parse_path log_dir) True True) (\<lambda>_.
     then_do (builder_getOrCreate X ?opts) (\<lambda>spark. ret (spark, spark))))"
  have run': "then_do (SparkContext_getOrCreate X) ?rest1 w = (r, w', t)"
    using run by (simp add: start_new_spark_session_def requested_settings_def)
  then consider
    (fail0) e where "SparkContext_getOrCreate X w = (Inl e, w', t)" "r = Inl e"
    | (go) c w1 t1 t1' where "SparkContext_getOrCreate X w = (Inr c, w1, t1)"
        "?rest1 c w1 = (r, w', t1')" "t = t1 @ t1'"
    unfolding then_do_result by blast
  then show ?thesis
  proof cases
    case fail0
    from getOrCreate_result [OF fail0(1)] have
      "active_session w = None" "active_session w' = None" "map ev t = [EvCtxGetOrCreate]"
      by auto
    with fail0(2) show ?thesis by (rule launch_failed)
  next
    case go
    from getOrCreate_result [OF go(1)] have
      e1: "map ev t1 = [EvCtxGetOrCreate]" and a1: "active_session w1 = Some c"
      and o1: "active_session w = Some c \<and> next_sid w1 = next_sid w
               \<or> active_session w = None \<and> next_sid w1 = Suc (next_sid w)"
      by auto
    let ?rest2 = "then_do (Path_mkdir (parse_path log_dir) True True) (\<lambda>_.
       then_do (builder_getOrCreate X ?opts) (\<lambda>spark. ret (spark, spark)))"
    obtain r2 w2 t2 where s: "SparkContext_stop c w1 = (r2, w2, t2)"
      by (cases "SparkContext_stop c w1") auto
    from stop_result [OF s a1] have
      r2: "r2 = Inr ()" and e2: "map ev t2 = [EvCtxStop (sid c)]"
      and a2: "active_session w2 = None" and n2: "next_sid w2 = next_sid w1"
      by auto
    from go(2) s r2 obtain t2' where
      rest2: "?rest2 w2 = (r, w', t2')" and t1': "t1' = t2 @ t2'"
      unfolding then_do_result [of "SparkContext_stop c"] by auto
    have k: "\<forall>s. active_session w = Some s \<longrightarrow> sid c = sid s"
      using o1 by auto
    from rest2 consider
      (fail2) e where "Path_mkdir (parse_path log_dir) True True w2 = (Inl e, w', t2')" "r = Inl e"
      | (go2) u w3 t3 t3' where "Path_mkdir (parse_path log_dir) True True w2 = (Inr u, w3, t3)"
          "then_do (builder_getOrCreate X ?opts) (\<lambda>spark. ret (spark, spark)) w3 = (r, w', t3')"
          "t2' = t3 @ t3'"
      unfolding then_do_result [of "Path_mkdir (parse_path log_dir) True True"] by blast
    then show ?thesis
    proof cases
      case fail2
      from Path_mkdir_result [OF fail2(1)] a2 have
        m: "map ev t2' = [EvMkdir (parse_path log_dir)]" and a: "active_session w' = None"
        by auto
      have "map ev t = [EvCtxGetOrCreate, EvCtxStop (sid c), EvMkdir (parse_path log_dir)]"
        using e1 e2 m t1' go(3) by simp
      with fail2(2) a k show ?thesis by (rule mkdir_failed)
    next
      case go2
      from Path_mkdir_result [OF go2(1)] a2 n2 have
        e3: "map ev t3 = [EvMkdir (parse_path log_dir)]" and a3: "active_session w3 = None"
        and n3: "next_sid w3 = next_sid w1"
        by auto
      obtain r4 w4 t4 where b: "builder_getOrCreate X ?opts w3 = (r4, w4, t4)"
        by (cases "builder_getOrCreate X ?opts w3") auto
      from go2(2) b have
        r: "r = (case r4 of Inl e \<Rightarrow> Inl e | Inr spark \<Rightarrow> Inr (spark, spark))"
        and w4: "w4 = w'" and t4: "t4 = t3'"
        by (auto simp: then_do_def ret_def split: sum.splits)
      from builder_result [OF b a3] w4 t4 have
        e4: "map ev t3' = [EvBuilderGetOrCreate ?opts]" and l4: "map live t3' = [None]"
        and o4: "case r4 of Inl e \<Rightarrow> active_session w' = None
                 | Inr s \<Rightarrow> active_session w' = Some s \<and> settings s = ?opts \<and> sid s = next_sid w3"
        by auto
      from l4 have "live (last t3') = None" "t3' \<noteq> []"
        by (cases t3'; auto)+
      then have l: "live (last t) = None"
        using go(3) t1' go2(3) by simp
      have ev: "map ev t = [EvCtxGetOrCreate, EvCtxStop (sid c), EvMkdir (parse_path log_dir),
                    EvBuilderGetOrCreate ?opts]"
        using go(3) t1' go2(3) e1 e2 e3 e4 by simp
      have leq: "next_sid w \<le> next_sid w3"
        using n3 o1 by auto
      have f1: "active_session w' = (case r of Inl e \<Rightarrow> None | Inr (spark, sc) \<Rightarrow> Some spark)"
        using o4 r by (cases r4) auto
      have f2: "case r of Inl e \<Rightarrow> True
                  | Inr (spark, sc) \<Rightarrow> sc = spark \<and> next_sid w \<le> sid spark
                      \<and> settings spark = ?opts"
        using o4 r leq by (cases r4) auto
      from f1 f2 k ev l show ?thesis by (rule builder_called)
    qed
  qed
qed

text \<open>
  C9. Every call of \<^verbatim>\<open>start_new_spark_session\<close> begins with
  \<^verbatim>\<open>SparkContext.getOrCreate().stop()\<close>: its calls are, in this order and up to the
  first that raises, getOrCreate, stop, the mkdir of the log directory and the
  builder. A session that was live before the call is the one stopped, and no session
  is live when the builder is called. When the call returns, the one live session of
  the process is the returned one, it is new and has the requested settings; when
  the call raises, no session is live.
\<close>

theorem session_stopped_before_new:
  assumes run: "start_new_spark_session X master_ip app_name log_dir cores memory partitions w
                  = (r, w', t)"
    and fresh: "\<forall>s. active_session w = Some s \<longrightarrow> sid s < next_sid w"
  shows "(\<exists>k. prefix (map ev t)
             [EvCtxGetOrCreate, EvCtxStop k, EvMkdir (parse_path log_dir),
              EvBuilderGetOrCreate
                (requested_settings master_ip app_name log_dir cores memory partitions)]
           \<and> (\<forall>s. active_session w = Some s \<longrightarrow> k = sid s \<and> EvCtxStop k \<in> set (map ev t)))
       \<and> (\<forall>c \<in> set t. \<forall>opts. ev c = EvBuilderGetOrCreate opts \<longrightarrow> live c = None)
       \<and> (case r of
             Inl e \<Rightarrow> active_session w' = None
           | Inr (spark, sc) \<Rightarrow>
               active_session w' = Some spark \<and> sc = spark
               \<and> settings spark
                    = requested_settings master_ip app_name log_dir cores memory partitions
               \<and> (\<forall>s. active_session w = Some s \<longrightarrow> sid spark \<noteq> sid s))"
proof -
  let ?opts = "requested_settings master_ip app_name log_dir cores memory partitions"
  from run show ?thesis
  proof (cases rule: start_new_spark_session_cases)
    case (launch_failed e)
    note c1 = launch_failed
    have "\<forall>c \<in> set t. \<forall>opts. ev c \<noteq> EvBuilderGetOrCreate opts"
      using c1(4) by (cases t) auto
    with c1 show ?thesis
      by (auto simp: prefix_def intro!: exI [of _ 0])
  next
    case (mkdir_failed e k)
    note c2 = mkdir_failed
    have "\<forall>c \<in> set t. \<forall>opts. ev c \<noteq> EvBuilderGetOrCreate opts"
    proof -
      have "\<forall>e \<in> set (map ev t). \<forall>opts. e \<noteq> EvBuilderGetOrCreate opts"
        unfolding c2(4) by simp
      then show ?thesis by simp
    qed
    moreover have "prefix (map ev t) [EvCtxGetOrCreate, EvCtxStop k, EvMkdir (parse_path log_dir),
        EvBuilderGetOrCreate ?opts]
        \<and> (\<forall>s. active_session w = Some s \<longrightarrow> k = sid s \<and> EvCtxStop k \<in> set (map ev t))"
      using c2(3) unfolding c2(4) by (simp add: prefix_def)
    ultimately show ?thesis using c2(1,2) by auto
  next
    case (builder_called k)
    note c3 = builder_called
    have len: "length t = 4"
      using arg_cong [OF c3(4), of length] by simp
    have builder: "\<forall>c \<in> set t. \<forall>opts. ev c = EvBuilderGetOrCreate opts \<longrightarrow> live c = None"
    proof (intro ballI allI impI)
      fix c opts assume c: "c \<in> set t" and e: "ev c = EvBuilderGetOrCreate opts"
      from c obtain i where i: "i < length t" "t ! i = c"
        by (auto simp: in_set_conv_nth)
      then have "map ev t ! i = EvBuilderGetOrCreate opts"
        using e by simp
      with i(1) len have "i = 3"
        unfolding c3(4) by (auto simp: less_Suc_eq numeral_eq_Suc)
      moreover have "t \<noteq> []" using len by auto
      ultimately have "c = last t"
        using i len by (simp add: last_conv_nth)
      with c3(5) show "live c = None" by simp
    qed
    have pre: "prefix (map ev t) [EvCtxGetOrCreate, EvCtxStop k, EvMkdir (parse_path log_dir),
        EvBuilderGetOrCreate ?opts]
        \<and> (\<forall>s. active_session w = Some s \<longrightarrow> k = sid s \<and> EvCtxStop k \<in> set (map ev t))"
      using c3(3) unfolding c3(4) by simp
    have fin: "case r of
             Inl e \<Rightarrow> active_session w' = None
           | Inr (spark, sc) \<Rightarrow>
               active_session w' = Some spark \<and> sc = spark
               \<and> settings spark = ?opts
               \<and> (\<forall>s. active_session w = Some s \<longrightarrow> sid spark \<noteq> sid s)"
      using c3(1,2) fresh by (cases r) (auto split: prod.splits)
    from pre builder fin show ?thesis by blast
  qed
qed

theorem session_stopped_before_new_witness:
  "active_session world_with_session = Some \<lparr>sid = 0, settings = [(''spark.master'', CStr ''yarn'')]\<rparr>
   \<and> map ev (snd (snd (start_new_spark_session example_collab ''local[*]'' ''bigslice''
                          ''logs'' 2 ''2g'' 5 world_with_session)))
       = [EvCtxGetOrCreate, EvCtxStop 0, EvMkdir [''logs''],
          EvBuilderGetOrCreate (requested_settings ''local[*]'' ''bigslice'' ''logs'' 2 ''2g'' 5)]
   \<and> map live (snd (snd (start_new_spark_session example_collab ''local[*]'' ''bigslice''
                          ''logs'' 2 ''2g'' 5 world_with_session)))
       = [Some 0, Some 0, None, None]
   \<and> active_session (fst (snd (start_new_spark_session example_collab ''local[*]'' ''bigslice''
                          ''logs'' 2 ''2g'' 5 world_with_session)))
       = Some \<lparr>sid = 1, settings = requested_settings ''local[*]'' ''bigslice'' ''logs'' 2 ''2g'' 5\<rparr>"
proof -
  let ?run = "start_new_spark_session example_collab ''local[*]'' ''bigslice''
                ''logs'' 2 ''2g'' 5 world_with_session"
  have ok: "fst ?run = Inr (\<lparr>sid = 1, settings = requested_settings ''local[*]'' ''bigslice'' ''logs'' 2 ''2g'' 5\<rparr>,
                           \<lparr>sid = 1, settings = requested_settings ''local[*]'' ''bigslice'' ''logs'' 2 ''2g'' 5\<rparr>)"
    by code_simp
  have run: "?run = (Inr (\<lparr>sid = 1, settings = requested_settings ''local[*]'' ''bigslice'' ''logs'' 2 ''2g'' 5\<rparr>,
                           \<lparr>sid = 1, settings = requested_settings ''local[*]'' ''bigslice'' ''logs'' 2 ''2g'' 5\<rparr>),
                     fst (snd ?run), snd (snd ?run))"
    using ok by (rule run_triple)
  have fresh: "\<forall>s. active_session world_with_session = Some s \<longrightarrow> sid s < next_sid world_with_session"
    by (simp add: world_with_session_def world_of_def)
  from session_stopped_before_new [OF run fresh]
  have "active_session (fst (snd ?run))
       = Some \<lparr>sid = 1, settings = requested_settings ''local[*]'' ''bigslice'' ''logs'' 2 ''2g'' 5\<rparr>"
    by simp
  moreover have "active_session world_with_session
      = Some \<lparr>sid = 0, settings = [(''spark.master'', CStr ''yarn'')]\<rparr>"
    by code_simp
  moreover have "map ev (snd (snd ?run))
       = [EvCtxGetOrCreate, EvCtxStop 0, EvMkdir [''logs''],
          EvBuilderGetOrCreate (requested_settings ''local[*]'' ''bigslice'' ''logs'' 2 ''2g'' 5)]"
    by code_simp
  moreover have "map live (snd (snd ?run)) = [Some 0, Some 0, None, None]"
    by code_simp
  ultimately show ?thesis by (intro conjI)
qed

section \<open>Order of the calls, and stopping at the first error\<close>








section \<open>What a run leaves untouched\<close>










lemma parent_prefix: "prefix (parent p) p"
  by (cases "p = []") (auto simp: parent_def prefix_def intro: exI [of _ "[last p]"])

lemma os_mkdir_adds: "os_mkdir f p = Inr f' \<Longrightarrow> f' = f @ [(p, Dir)]"
  by (auto simp: os_mkdir_def split: if_splits)

lemma mkdir_adds:
  "mkdir f p parents exist_ok = Inr f' \<Longrightarrow> \<exists>new. f' = f @ new \<and> (\<forall>k \<in> fst ` set new. prefix k p)"
proof (induction f p parents exist_ok arbitrary: f' rule: mkdir.induct)
  case (1 fs p parents exist_ok)
  show ?case
  proof (cases "os_mkdir fs p")
    case (Inr f)
    with "1.prems" have "f' = fs @ [(p, Dir)]"
      by (auto simp: mkdir.simps [of fs p] dest: os_mkdir_adds)
    then show ?thesis by auto
  next
    case (Inl e)
    show ?thesis
    proof (cases "e = FileNotFoundError")
      case True
      with Inl "1.prems"(1) have np: "\<not> (\<not> parents \<or> parent p = p)"
        by (auto simp: mkdir.simps [of fs p] split: if_splits)
      with Inl True "1.prems"(1) obtain fs1 where
        a: "mkdir fs (parent p) True True = Inr fs1" and b: "mkdir fs1 p False exist_ok = Inr f'"
        by (auto simp: mkdir.simps [of fs p] split: if_splits sum.splits)
      from "1.IH"(1) [OF Inl True np a] obtain new1 where
        n1: "fs1 = fs @ new1" "\<forall>k \<in> fst ` set new1. prefix k (parent p)"
        by auto
      from "1.IH"(2) [OF Inl True np a b] obtain new2 where
        n2: "f' = fs1 @ new2" "\<forall>k \<in> fst ` set new2. prefix k p"
        by auto
      have "\<forall>k \<in> fst ` set new1. prefix k p"
        using n1(2) parent_prefix [of p] by (auto intro: prefix_order.trans)
      with n1(1) n2 have "f' = fs @ (new1 @ new2) \<and> (\<forall>k \<in> fst ` set (new1 @ new2). prefix k p)"
        by auto
      then show ?thesis by blast
    next
      case False
      with Inl "1.prems" have "f' = fs"
        by (auto simp: mkdir.simps [of fs p] split: if_splits)
      then show ?thesis by auto
    qed
  qed
qed







subsection \<open>Programs that keep a set of paths\<close>










section \<open>The manifest, written in full\<close>

lemma parent_shorter: "parent p \<noteq> p \<Longrightarrow> \<not> prefix p (parent p)"
proof
  assume ne: "parent p \<noteq> p" and pre: "prefix p (parent p)"
  from ne have "length (parent p) < length p"
    by (cases "p = []") (auto simp: parent_def split: if_splits)
  moreover from pre have "length p \<le> length (parent p)"
    by (rule prefix_length_le)
  ultimately show False by simp
qed

lemma mkdir_absent:
  assumes mk: "mkdir fs q parents exist_ok = Inr f1" and ab: "\<not> path_exists fs p"
    and np: "\<not> prefix p q"
  shows "\<not> path_exists f1 p"
proof -
  from mkdir_adds [OF mk] obtain new where
    n: "f1 = fs @ new" "\<forall>k \<in> fst ` set new. prefix k q"
    by auto
  from n(2) np have "p \<notin> fst ` set new" by auto
  with ab show ?thesis
    by (auto simp: n(1) path_exists_iff)
qed

lemma mkdir_makeable:
  "makeable fs p \<Longrightarrow> \<exists>f1. mkdir fs p True True = Inr f1"
proof (induction fs p rule: makeable.induct)
  case (1 fs p)
  show ?case
  proof (cases "path_exists fs p")
    case True
    with "1.prems" have "path_is_dir fs p"
      by (simp add: makeable.simps [of fs p])
    with True show ?thesis
      by (simp add: mkdir.simps [of fs p] os_mkdir_def)
  next
    case False
    with "1.prems" have ne: "parent p \<noteq> p" and mp: "makeable fs (parent p)"
      by (auto simp: makeable.simps [of fs p] split: if_splits)
    show ?thesis
    proof (cases "path_exists fs (parent p)")
      case True
      with mp have "path_is_dir fs (parent p)"
        by (simp add: makeable.simps [of fs "parent p"])
      with True False show ?thesis
        by (simp add: mkdir.simps [of fs p] os_mkdir_def)
    next
      case np: False
      from "1.IH" [OF False ne mp] obtain f1 where
        mk: "mkdir fs (parent p) True True = Inr f1"
        by auto
      have d: "path_is_dir f1 (parent p)"
        using mk by (rule mkdir_is_dir)
      have a: "\<not> path_exists f1 p"
        using mk False parent_shorter [OF ne] by (rule mkdir_absent)
      from d a have "mkdir f1 p False True = Inr (f1 @ [(p, Dir)])"
        by (simp add: mkdir.simps [of f1 p] os_mkdir_def path_is_dir_exists)
      with False np ne mk show ?thesis
        by (simp add: mkdir.simps [of fs p] os_mkdir_def)
    qed
  qed
qed

lemma makeable_not_self:
  assumes "makeable fs (parent p)" "\<not> path_is_dir fs p"
  shows "\<not> prefix p (parent p)"
proof (cases "parent p = p")
  case True
  with assms show ?thesis
    by (auto simp: makeable.simps [of fs p] path_is_dir_exists split: if_splits)
next
  case False
  then show ?thesis by (rule parent_shorter)
qed

lemma mkdir_elsewhere:
  assumes mk: "mkdir fs q parents exist_ok = Inr f1" and np: "\<not> prefix p q"
  shows "map_of f1 p = map_of fs p"
proof -
  from mkdir_adds [OF mk] obtain new where
    n: "f1 = fs @ new" "\<forall>k \<in> fst ` set new. prefix k q"
    by auto
  from n(2) np have "p \<notin> fst ` set new" by auto
  then have "map_of new p = None"
    by (simp add: map_of_eq_None_iff)
  then show ?thesis
    by (simp add: n(1) map_add_def split: option.splits)
qed

lemma utf8_valid_newline: "utf8_valid (s @ [CHR 0x0A]) = utf8_valid s"
proof (induction s rule: utf8_valid.induct)
  case 1
  show ?case by (simp add: byte_in_def)
next
  case (2 a s)
  have nl: "byte_in 0x00 0x7F (CHR 0x0A)" "\<not> byte_in 0x80 0xBF (CHR 0x0A)"
    by (simp_all add: byte_in_def)
  show ?case
  proof (cases s)
    case Nil
    then show ?thesis by (simp add: nl)
  next
    case s1: (Cons b s1)
    show ?thesis
    proof (cases s1)
      case Nil
      with s1 2 show ?thesis by (simp add: nl)
    next
      case s2: (Cons c s2)
      show ?thesis
      proof (cases s2)
        case Nil
        with s1 s2 2 show ?thesis by (simp add: nl)
      next
        case s3: (Cons d s3)
        with s1 s2 2 show ?thesis by simp
      qed
    qed
  qed
qed

text \<open>
  C2. Take a well-formed file system, a kernel whose global \<^verbatim>\<open>genbank_table\<close> holds the
  destination, matched paths that contain no newline and are valid UTF-8, and a
  destination that can be written: a directory can be made at its parent, and the
  destination itself is no directory. Then the manifest cell returns, and afterwards
  the destination holds the paths of the matched files, each ended by a newline,
  whatever it held before: its lines are these paths in the order of discovery, one line
  per matched file and no file twice; every line names an entry that exists before and
  after the write; the parent of the destination is a directory; every other entry is
  as it was.
\<close>

theorem manifest_one_line_per_file:
  assumes gt: "genbank_table w = Some gt"
    and ds: "glob (files w) (parse_path dataset_path) dataset_pattern = Inr datasets"
    and dist: "distinct (map fst (files w))"
    and norm: "\<forall>q \<in> fst ` set (files w). normal_path q"
    and nl: "\<forall>d \<in> set datasets. CHR 0x0A \<notin> set (str_path d)"
    and utf: "\<forall>d \<in> set datasets. utf8_valid (str_path d)"
    and mkp: "makeable (files w) (parent (parse_path gt))"
    and nd: "\<not> path_is_dir (files w) (parse_path gt)"
  shows "\<exists>w' t. manifest_cell w = (Inr (), w', t)
          \<and> map_of (files w') (parse_path gt) = Some (File (manifest_text datasets))
          \<and> lines_of (manifest_text datasets) = map str_path datasets
          \<and> map parse_path (lines_of (manifest_text datasets)) = datasets
          \<and> length (lines_of (manifest_text datasets)) = length datasets
          \<and> distinct datasets
          \<and> (\<forall>l \<in> set (lines_of (manifest_text datasets)).
                path_exists (files w) (parse_path l) \<and> path_exists (files w') (parse_path l))
          \<and> path_is_dir (files w') (parent (parse_path gt))
          \<and> (\<forall>q n. q \<noteq> parse_path gt \<and> map_of (files w) q = Some n
                \<longrightarrow> map_of (files w') q = Some n)"
proof -
  let ?P = "parse_path gt"
  let ?text = "manifest_text datasets"
  let ?run = "manifest_cell w"
  from mkdir_makeable [OF mkp] obtain f1 where
    mk: "mkdir (files w) (parent ?P) True True = Inr f1"
    by auto
  have "map_of f1 ?P = map_of (files w) ?P"
    using mk makeable_not_self [OF mkp nd] by (rule mkdir_elsewhere)
  with nd have nd1: "\<not> path_is_dir f1 ?P"
    by (simp add: path_is_dir_def)
  have ok: "list_all utf8_valid (map (\<lambda>d. str_path d @ [CHR 0x0A]) datasets)"
    using utf by (simp add: list_all_iff utf8_valid_newline)
  note runs = manifest_cell_runs [OF ds gt mk nd1 ok]
  have run: "?run = (Inr (), fst (snd ?run), snd (snd ?run))"
    using runs(1) by (rule run_triple)
  have fw: "files (fst (snd ?run)) = AList.update ?P (File ?text) f1"
    using runs(2) by (simp add: manifest_text_def)
  have content: "map_of (files (fst (snd ?run))) ?P = Some (File ?text)"
    by (simp add: fw map_of_update)
  have "?text = concat (map (\<lambda>x. x @ [CHR 0x0A]) (map str_path datasets))"
    by (simp add: manifest_text_def comp_def)
  moreover have "\<forall>x \<in> set (map str_path datasets). CHR 0x0A \<notin> set x"
    using nl by simp
  ultimately have lines: "lines_of ?text = map str_path datasets"
    by (simp only: lines_of_terminated)
  have ex: "\<And>d. d \<in> set datasets \<Longrightarrow> path_exists (files w) d"
    using ds by (rule glob_dataset_exists)
  have rt: "\<And>d. d \<in> set datasets \<Longrightarrow> parse_path (str_path d) = d"
    using ex norm by (auto simp: path_exists_iff intro: parse_str_path)
  from rt have paths: "map parse_path (lines_of ?text) = datasets"
    by (simp add: lines map_idI)
  have ex': "\<And>d. d \<in> set datasets \<Longrightarrow> path_exists (files (fst (snd ?run))) d"
    using ex mk by (auto simp: fw intro: path_exists_update mkdir_exists)
  have each: "\<forall>l \<in> set (lines_of ?text).
      path_exists (files w) (parse_path l) \<and> path_exists (files (fst (snd ?run))) (parse_path l)"
    using ex ex' rt by (auto simp: lines)
  have "path_is_dir f1 (parent ?P)"
    using mk by (rule mkdir_is_dir)
  with nd1 have dir: "path_is_dir (files (fst (snd ?run))) (parent ?P)"
    by (auto simp: fw intro: path_is_dir_update)
  have d: "distinct datasets"
    using ds dist by (rule glob_dataset_distinct)
  have rest: "\<forall>q n. q \<noteq> ?P \<and> map_of (files w) q = Some n
      \<longrightarrow> map_of (files (fst (snd ?run))) q = Some n"
    using mkdir_keeps [OF mk] by (simp add: fw map_of_update)
  have len: "length (lines_of ?text) = length datasets"
    by (simp add: lines)
  from run content lines paths len d each dir rest show ?thesis
    by blast
qed

theorem manifest_one_line_per_file_witness:
  "fst (manifest_cell (world_of fs_three (Some ''out/sub/m.txt''))) = Inr ()
   \<and> map raised (snd (snd (manifest_cell (world_of fs_three (Some ''out/sub/m.txt'')))))
      = [None, None, None, None, None]
   \<and> \<not> path_exists fs_three [''out'']
   \<and> path_is_dir (files (fst (snd (manifest_cell (world_of fs_three (Some ''out/sub/m.txt''))))))
        [''out'', ''sub'']
   \<and> map_of (files (fst (snd (manifest_cell (world_of fs_three (Some ''out/sub/m.txt''))))))
        [''out'', ''sub'', ''m.txt'']
      = Some (File (''/home/matinnu/datadrive/vol_atlas_server/datasets/g1/antismash/c1.region001.gbk''
                    @ [CHR 0x0A]
                    @ ''/home/matinnu/datadrive/vol_atlas_server/datasets/g1/antismash/c1.region002.gbk''
                    @ [CHR 0x0A]
                    @ ''/home/matinnu/datadrive/vol_atlas_server/datasets/g2/antismash/c7.region001.gbk''
                    @ [CHR 0x0A]))
   \<and> map_of fs_three [''m.txt'']
      = Some (File (''stale line'' @ [CHR 0x0A] @ ''another stale line'' @ [CHR 0x0A]))
   \<and> fst (manifest_cell (world_of fs_three (Some ''m.txt''))) = Inr ()
   \<and> map raised (snd (snd (manifest_cell (world_of fs_three (Some ''m.txt'')))))
      = [None, None, None, None, None]
   \<and> map_of (files (fst (snd (manifest_cell (world_of fs_three (Some ''m.txt'')))))) [''m.txt'']
      = Some (File (''/home/matinnu/datadrive/vol_atlas_server/datasets/g1/antismash/c1.region001.gbk''
                    @ [CHR 0x0A]
                    @ ''/home/matinnu/datadrive/vol_atlas_server/datasets/g1/antismash/c1.region002.gbk''
                    @ [CHR 0x0A]
                    @ ''/home/matinnu/datadrive/vol_atlas_server/datasets/g2/antismash/c7.region001.gbk''
                    @ [CHR 0x0A]))
   \<and> lines_of (''/home/matinnu/datadrive/vol_atlas_server/datasets/g1/antismash/c1.region001.gbk''
                    @ [CHR 0x0A]
                    @ ''/home/matinnu/datadrive/vol_atlas_server/datasets/g1/antismash/c1.region002.gbk''
                    @ [CHR 0x0A]
                    @ ''/home/matinnu/datadrive/vol_atlas_server/datasets/g2/antismash/c7.region001.gbk''
                    @ [CHR 0x0A])
      = [''/home/matinnu/datadrive/vol_atlas_server/datasets/g1/antismash/c1.region001.gbk'',
         ''/home/matinnu/datadrive/vol_atlas_server/datasets/g1/antismash/c1.region002.gbk'',
         ''/home/matinnu/datadrive/vol_atlas_server/datasets/g2/antismash/c7.region001.gbk'']"
proof -
  let ?ds = "[datasets_dir @ [''g1'', ''antismash'', ''c1.region001.gbk''],
              datasets_dir @ [''g1'', ''antismash'', ''c1.region002.gbk''],
              datasets_dir @ [''g2'', ''antismash'', ''c7.region001.gbk'']]"
  let ?text = "''/home/matinnu/datadrive/vol_atlas_server/datasets/g1/antismash/c1.region001.gbk''
                    @ [CHR 0x0A]
                    @ ''/home/matinnu/datadrive/vol_atlas_server/datasets/g1/antismash/c1.region002.gbk''
                    @ [CHR 0x0A]
                    @ ''/home/matinnu/datadrive/vol_atlas_server/datasets/g2/antismash/c7.region001.gbk''
                    @ [CHR 0x0A]"
  let ?a = "world_of fs_three (Some ''out/sub/m.txt'')"
  let ?b = "world_of fs_three (Some ''m.txt'')"
  have mt: "manifest_text ?ds = ?text"
    by code_simp
  have pa: "parse_path ''out/sub/m.txt'' = [''out'', ''sub'', ''m.txt'']"
    "parent [''out'', ''sub'', ''m.txt''] = [''out'', ''sub'']"
    and pb: "parse_path ''m.txt'' = [''m.txt'']"
    by code_simp+
  have gta: "genbank_table ?a = Some ''out/sub/m.txt''"
    and gtb: "genbank_table ?b = Some ''m.txt''"
    by code_simp+
  have dsa: "glob (files ?a) (parse_path dataset_path) dataset_pattern = Inr ?ds"
    and dsb: "glob (files ?b) (parse_path dataset_path) dataset_pattern = Inr ?ds"
    by code_simp+
  have dista: "distinct (map fst (files ?a))" and distb: "distinct (map fst (files ?b))"
    by code_simp+
  have norma: "\<forall>q \<in> fst ` set (files ?a). normal_path q"
    and normb: "\<forall>q \<in> fst ` set (files ?b). normal_path q"
    by code_simp+
  have nl: "\<forall>d \<in> set ?ds. CHR 0x0A \<notin> set (str_path d)"
    by code_simp
  have utf: "\<forall>d \<in> set ?ds. utf8_valid (str_path d)"
    by code_simp
  have mka: "makeable (files ?a) (parent (parse_path ''out/sub/m.txt''))"
    and mkb: "makeable (files ?b) (parent (parse_path ''m.txt''))"
    by code_simp+
  have nda: "\<not> path_is_dir (files ?a) (parse_path ''out/sub/m.txt'')"
    and ndb: "\<not> path_is_dir (files ?b) (parse_path ''m.txt'')"
    by code_simp+
  from manifest_one_line_per_file [OF gta dsa dista norma nl utf mka nda]
  have a: "fst (manifest_cell ?a) = Inr ()"
    "map_of (files (fst (snd (manifest_cell ?a)))) [''out'', ''sub'', ''m.txt''] = Some (File ?text)"
    "path_is_dir (files (fst (snd (manifest_cell ?a)))) [''out'', ''sub'']"
    "lines_of ?text = map str_path ?ds"
    unfolding mt pa by auto
  from manifest_one_line_per_file [OF gtb dsb distb normb nl utf mkb ndb]
  have b: "fst (manifest_cell ?b) = Inr ()"
    "map_of (files (fst (snd (manifest_cell ?b)))) [''m.txt''] = Some (File ?text)"
    unfolding mt pb by auto
  have strs: "map str_path ?ds
      = [''/home/matinnu/datadrive/vol_atlas_server/datasets/g1/antismash/c1.region001.gbk'',
         ''/home/matinnu/datadrive/vol_atlas_server/datasets/g1/antismash/c1.region002.gbk'',
         ''/home/matinnu/datadrive/vol_atlas_server/datasets/g2/antismash/c7.region001.gbk'']"
    by code_simp
  have absent: "\<not> path_exists fs_three [''out'']"
    by code_simp
  have quiet: "map raised (snd (snd (manifest_cell ?a))) = [None, None, None, None, None]"
    "map raised (snd (snd (manifest_cell ?b))) = [None, None, None, None, None]"
    by code_simp+
  have old: "map_of fs_three [''m.txt'']
      = Some (File (''stale line'' @ [CHR 0x0A] @ ''another stale line'' @ [CHR 0x0A]))"
    by code_simp
  from a(4) strs have l: "lines_of ?text
      = [''/home/matinnu/datadrive/vol_atlas_server/datasets/g1/antismash/c1.region001.gbk'',
         ''/home/matinnu/datadrive/vol_atlas_server/datasets/g1/antismash/c1.region002.gbk'',
         ''/home/matinnu/datadrive/vol_atlas_server/datasets/g2/antismash/c7.region001.gbk'']"
    by (simp only:)
  from a(1) quiet(1) absent a(3) a(2) old b(1) quiet(2) b(2) l show ?thesis
    by (intro conjI)
qed

theorem manifest_newline_counterexample:
  "glob fs_newline (parse_path dataset_path) dataset_pattern
     = Inr [datasets_dir @ [''g1'', ''antismash'', ''a'' @ [CHR 0x0A] @ ''region.gbk'']]
   \<and> fst (manifest_cell (world_of fs_newline (Some ''m.txt''))) = Inr ()
   \<and> map_of (files (fst (snd (manifest_cell (world_of fs_newline (Some ''m.txt''))))))
        (parse_path ''m.txt'')
      = Some (File (''/home/matinnu/datadrive/vol_atlas_server/datasets/g1/antismash/a''
                    @ [CHR 0x0A] @ ''region.gbk'' @ [CHR 0x0A]))
   \<and> lines_of (''/home/matinnu/datadrive/vol_atlas_server/datasets/g1/antismash/a''
                    @ [CHR 0x0A] @ ''region.gbk'' @ [CHR 0x0A])
      = [''/home/matinnu/datadrive/vol_atlas_server/datasets/g1/antismash/a'', ''region.gbk'']
   \<and> \<not> path_exists fs_newline
        (parse_path ''/home/matinnu/datadrive/vol_atlas_server/datasets/g1/antismash/a'')
   \<and> \<not> path_exists fs_newline (parse_path ''region.gbk'')
   \<and> glob fs_latin1 (parse_path dataset_path) dataset_pattern
     = Inr [datasets_dir @ [''g1'', ''antismash'', ''c1.region001.gbk''],
            datasets_dir @ [''g1'', ''antismash'', [CHR 0xE9] @ ''.region001.gbk'']]
   \<and> fst (manifest_cell (world_of fs_latin1 (Some ''m.txt''))) = Inl UnicodeEncodeError
   \<and> map_of (files (fst (snd (manifest_cell (world_of fs_latin1 (Some ''m.txt''))))))
        (parse_path ''m.txt'')
      = Some (File (''/home/matinnu/datadrive/vol_atlas_server/datasets/g1/antismash/c1.region001.gbk''
                    @ [CHR 0x0A]))"
  by code_simp

section \<open>The staging sequence\<close>












lemma follows_ret: "follows {[]} (ret x)"
  by (auto simp: follows_def ret_result)

















section \<open>Running the sequence again\<close>















lemma manifest_cell_globals:
  assumes "manifest_cell w = (r, w', t)"
  shows "genbank_table w' = genbank_table w"
  using assms unfolding manifest_cell_def prim_defs
  by (auto simp: then_do_result step_result on_files_result split: option.splits)
















end
